theory Spec2Isabelle
  imports Main
begin

section \<open>JavaScript strings\<close>

text \<open>
  A JavaScript string is a sequence of UTF-16 code units; \<open>length\<close> counts code units and
  so does every ProseMirror position inside a text node. A string is modelled as the list
  of its code units; \<open>js\<close> turns a literal into that list.
\<close>

type_synonym jsstring = "nat list"

definition js :: "string \<Rightarrow> jsstring" where
  "js s = map of_char s"

section \<open>The AI session machine (machines/editorMachine)\<close>

text \<open>
  The xstate machine \<open>editorMachine\<close>: four states, a context of four fields, nine
  events. \<open>AI.ERROR\<close> carries \<open>String(event.error)\<close>, the only thing the machine reads of
  the error.
\<close>

datatype status = Idle | Streaming | Pending | Modifying

record machine_context =
  generatedText :: jsstring
  pendingSuggestion :: jsstring
  error :: "jsstring option"
  selectedText :: jsstring

record generate_event =
  currentText :: jsstring
  tone :: jsstring
  editorContext :: "jsstring option"
  length_hint :: "jsstring option"

record action_event =
  ev_selectedText :: jsstring
  ev_action :: jsstring
  ev_editorContext :: "jsstring option"

datatype event =
    GENERATE generate_event
  | GENERATE_WITH_ACTION action_event
  | AI_CHUNK jsstring
  | AI_DONE
  | AI_ERROR jsstring
  | STOP
  | ACCEPT
  | REJECT
  | MODIFY jsstring

definition initial_context :: machine_context where
  "initial_context =
     \<lparr>generatedText = [], pendingSuggestion = [], error = None, selectedText = []\<rparr>"

text \<open>
  \<open>on_event\<close> is the \<open>on:\<close> table of each state: the target and the assigned context of
  the transition the state declares for the event, \<open>None\<close> where the state declares none.
  A transition without \<open>target\<close> stays in its state.
\<close>

fun on_event :: "status \<Rightarrow> machine_context \<Rightarrow> event \<Rightarrow> (status \<times> machine_context) option" where
  "on_event Idle c (GENERATE e) =
     Some (Streaming, c\<lparr>generatedText := [], pendingSuggestion := [], error := None\<rparr>)"
| "on_event Idle c (GENERATE_WITH_ACTION e) =
     Some (Modifying, c\<lparr>generatedText := [], pendingSuggestion := [],
                         selectedText := ev_selectedText e, error := None\<rparr>)"
| "on_event Streaming c (AI_CHUNK chunk) =
     Some (Streaming, c\<lparr>generatedText := generatedText c @ chunk\<rparr>)"
| "on_event Streaming c AI_DONE =
     Some (Pending, c\<lparr>pendingSuggestion := generatedText c\<rparr>)"
| "on_event Streaming c (AI_ERROR err) = Some (Idle, c\<lparr>error := Some err\<rparr>)"
| "on_event Streaming c STOP = Some (Idle, c)"
| "on_event Pending c ACCEPT =
     Some (Idle, c\<lparr>generatedText := [], pendingSuggestion := []\<rparr>)"
| "on_event Pending c REJECT =
     Some (Idle, c\<lparr>generatedText := [], pendingSuggestion := []\<rparr>)"
| "on_event Pending c (MODIFY a) = Some (Modifying, c\<lparr>generatedText := []\<rparr>)"
| "on_event Modifying c (AI_CHUNK chunk) =
     Some (Modifying, c\<lparr>generatedText := generatedText c @ chunk\<rparr>)"
| "on_event Modifying c AI_DONE =
     Some (Pending, c\<lparr>pendingSuggestion := generatedText c\<rparr>)"
| "on_event Modifying c (AI_ERROR err) = Some (Pending, c\<lparr>error := Some err\<rparr>)"
| "on_event Modifying c STOP = Some (Pending, c)"
| "on_event _ _ _ = None"

text \<open>
  The actors a state invokes on entry: \<open>streamingAI\<close> for \<open>streaming\<close>, \<open>modifyingAI\<close> for
  \<open>modifying\<close>. An actor is one generation session of the text service. A transition
  with a target enters the target state and so starts its actor; a transition without
  one (\<open>AI.CHUNK\<close>) starts nothing.
\<close>

datatype actor = StreamingAI | ModifyingAI

fun invoked :: "status \<Rightarrow> actor option" where
  "invoked Streaming = Some StreamingAI"
| "invoked Modifying = Some ModifyingAI"
| "invoked _ = None"

fun has_target :: "status \<Rightarrow> event \<Rightarrow> bool" where
  "has_target Streaming (AI_CHUNK chunk) = False"
| "has_target Modifying (AI_CHUNK chunk) = False"
| "has_target _ _ = True"

record machine =
  state :: status
  ctx :: machine_context

text \<open>
  \<open>send\<close> delivers one event: an event the current state does not handle changes
  nothing. \<open>started\<close> is the actor the delivery starts, if any.
\<close>

definition send :: "machine \<Rightarrow> event \<Rightarrow> machine" where
  "send m e =
     (case on_event (state m) (ctx m) e of
        None \<Rightarrow> m
      | Some (s', c') \<Rightarrow> m\<lparr>state := s', ctx := c'\<rparr>)"

definition started :: "machine \<Rightarrow> event \<Rightarrow> actor option" where
  "started m e =
     (case on_event (state m) (ctx m) e of
        None \<Rightarrow> None
      | Some (s', c') \<Rightarrow> if has_target (state m) e then invoked s' else None)"

definition is_generate :: "event \<Rightarrow> bool" where
  "is_generate e = (case e of GENERATE g \<Rightarrow> True | GENERATE_WITH_ACTION a \<Rightarrow> True | _ \<Rightarrow> False)"

section \<open>The document model (prosemirror-model, lib/editor-config)\<close>

text \<open>
  Documents are ProseMirror trees over the schema of \<open>lib/editor-config\<close>: a text node
  is a string with its marks, any other node has a type, attributes and children.
  Attribute values are JSON values. The library's exceptions are values of \<open>failure\<close>
  (\<open>GenericError\<close> is a plain \<open>Error\<close>); \<open>Beyond_model\<close> marks the places where the library
  does something this development does not model (fitting a replacement that does not
  fit as it is, placing a selection that fell outside inline content).
\<close>

datatype json = JNull | JBool bool | JNum int | JStr jsstring | JArr "json list"
  | JObj "(jsstring \<times> json) list"

type_synonym attrs = "(jsstring \<times> json) list"

datatype mtype = Strong | Em | Code | Underline | Strikethrough | Link | Highlight
datatype mark = Mark mtype attrs

datatype ntype = Doc | Paragraph | TextT | Hard_break | Heading | Blockquote | Code_block
  | Horizontal_rule | Image | Bullet_list | Ordered_list | List_item | Task_list | Task_item
  | Toggle_list | Toggle_item | Callout

datatype pmnode = Text jsstring "mark list" | Node ntype attrs "pmnode list"

datatype failure = RangeError | TypeError | TransformError | GenericError | Beyond_model

fun type_of :: "pmnode \<Rightarrow> ntype" where
  "type_of (Text s ms) = TextT"
| "type_of (Node t a cs) = t"

fun content :: "pmnode \<Rightarrow> pmnode list" where
  "content (Text s ms) = []"
| "content (Node t a cs) = cs"

fun marks_of :: "pmnode \<Rightarrow> mark list" where
  "marks_of (Text s ms) = ms"
| "marks_of (Node t a cs) = []"

fun isText :: "pmnode \<Rightarrow> bool" where
  "isText (Text s ms) = True"
| "isText (Node t a cs) = False"

fun isLeafType :: "ntype \<Rightarrow> bool" where
  "isLeafType TextT = True"
| "isLeafType Hard_break = True"
| "isLeafType Horizontal_rule = True"
| "isLeafType Image = True"
| "isLeafType _ = False"

fun nodeSize :: "pmnode \<Rightarrow> nat" where
  "nodeSize (Text s ms) = length s"
| "nodeSize (Node t a cs) = (if isLeafType t then 1 else 2 + sum_list (map nodeSize cs))"

definition fragSize :: "pmnode list \<Rightarrow> nat" where
  "fragSize cs = sum_list (map nodeSize cs)"

subsection \<open>Positions (ResolvedPos)\<close>

text \<open>
  \<open>Fragment.findIndex\<close> and \<open>ResolvedPos.resolve\<close>: a resolved position is the path from
  the document down to the innermost node around the position, one entry (node, index
  into its children, offset of that child) per depth.
\<close>

fun findIndex_from :: "pmnode list \<Rightarrow> nat \<Rightarrow> nat \<Rightarrow> nat \<Rightarrow> nat \<times> nat" where
  "findIndex_from [] i curPos pos = (i, curPos)"
| "findIndex_from (c # cs) i curPos pos =
     (let end = curPos + nodeSize c in
      if pos \<le> end then (if end = pos then (i + 1, end) else (i, curPos))
      else findIndex_from cs (i + 1) end pos)"

definition findIndex :: "pmnode list \<Rightarrow> nat \<Rightarrow> failure + nat \<times> nat" where
  "findIndex cs pos =
     (if pos = 0 then Inr (0, pos)
      else if pos = fragSize cs then Inr (length cs, pos)
      else if pos > fragSize cs then Inl RangeError
      else Inr (findIndex_from cs 0 0 pos))"

lemma size_nth_less: "i < length cs \<Longrightarrow> size (cs ! i) < Suc (size_list size cs)"
proof (induction cs arbitrary: i)
  case Nil
  then show ?case by simp
next
  case (Cons c cs)
  show ?case
  proof (cases i)
    case 0
    then show ?thesis by simp
  next
    case (Suc k)
    with Cons.prems have "k < length cs" by simp
    from Cons.IH [OF this] show ?thesis using Suc by simp
  qed
qed

function resolve_path ::
  "pmnode \<Rightarrow> nat \<Rightarrow> nat \<Rightarrow> failure + (pmnode \<times> nat \<times> nat) list \<times> nat" where
  "resolve_path node start parentOffset =
     (case findIndex (content node) parentOffset of
        Inl e \<Rightarrow> Inl e
      | Inr (index, offset) \<Rightarrow>
          if parentOffset - offset = 0 then Inr ([(node, index, start + offset)], parentOffset)
          else if index < length (content node) then
            (if isText (content node ! index)
             then Inr ([(node, index, start + offset)], parentOffset)
             else (case resolve_path (content node ! index) (start + offset + 1)
                          (parentOffset - offset - 1) of
                     Inl e \<Rightarrow> Inl e
                   | Inr (p, po) \<Rightarrow> Inr ((node, index, start + offset) # p, po)))
          else Inl RangeError)"
  by pat_completeness auto
termination
proof (relation "measure (\<lambda>(n, s, p). size n)")
  show "wf (measure (\<lambda>(n, s, p). size n))" by simp
next
  fix node :: pmnode and start parentOffset :: nat and x2 :: "nat \<times> nat" and index offset :: nat
  assume "index < length (content node)"
  then have "size (content node ! index) < size node"
    by (cases node) (simp_all add: size_nth_less)
  then show "((content node ! index, start + offset + 1, parentOffset - offset - 1),
              node, start, parentOffset) \<in> measure (\<lambda>(n, s, p). size n)"
    by simp
qed

record rpos =
  rp_pos :: nat
  rp_path :: "(pmnode \<times> nat \<times> nat) list"
  rp_parentOffset :: nat

definition resolve :: "pmnode \<Rightarrow> nat \<Rightarrow> failure + rpos" where
  "resolve d pos =
     (if pos \<le> fragSize (content d) then
        (case resolve_path d 0 pos of
           Inl e \<Rightarrow> Inl e
         | Inr (p, po) \<Rightarrow> Inr \<lparr>rp_pos = pos, rp_path = p, rp_parentOffset = po\<rparr>)
      else Inl RangeError)"

definition depth :: "rpos \<Rightarrow> nat" where
  "depth r = length (rp_path r) - 1"

definition node_at :: "rpos \<Rightarrow> nat \<Rightarrow> pmnode" where
  "node_at r d = fst (rp_path r ! d)"

definition index_at :: "rpos \<Rightarrow> nat \<Rightarrow> nat" where
  "index_at r d = fst (snd (rp_path r ! d))"

definition offset_at :: "rpos \<Rightarrow> nat \<Rightarrow> nat" where
  "offset_at r d = snd (snd (rp_path r ! d))"

definition parent :: "rpos \<Rightarrow> pmnode" where
  "parent r = node_at r (depth r)"

definition start_at :: "rpos \<Rightarrow> nat \<Rightarrow> nat" where
  "start_at r d = (if d = 0 then 0 else offset_at r (d - 1) + 1)"


definition before_at :: "rpos \<Rightarrow> nat \<Rightarrow> failure + nat" where
  "before_at r d =
     (if d = 0 then Inl RangeError
      else if d = depth r + 1 then Inr (rp_pos r)
      else Inr (offset_at r (d - 1)))"

definition after_at :: "rpos \<Rightarrow> nat \<Rightarrow> failure + nat" where
  "after_at r d =
     (if d = 0 then Inl RangeError
      else if d = depth r + 1 then Inr (rp_pos r)
      else Inr (offset_at r (d - 1) + nodeSize (node_at r d)))"

definition textOffset :: "rpos \<Rightarrow> nat" where
  "textOffset r = rp_pos r - offset_at r (depth r)"

fun text_of :: "pmnode \<Rightarrow> jsstring" where
  "text_of (Text s ms) = s"
| "text_of (Node t a cs) = []"

fun withText :: "pmnode \<Rightarrow> jsstring \<Rightarrow> pmnode" where
  "withText (Text s ms) s' = Text s' ms"
| "withText (Node t a cs) s' = Node t a cs"

fun copy :: "pmnode \<Rightarrow> pmnode list \<Rightarrow> pmnode" where
  "copy (Node t a cs) cs' = Node t a cs'"
| "copy (Text s ms) cs' = Text s ms"

function (sequential) cut_node :: "pmnode \<Rightarrow> nat \<Rightarrow> nat \<Rightarrow> pmnode"
  and cut_nodes :: "pmnode list \<Rightarrow> nat \<Rightarrow> nat \<Rightarrow> nat \<Rightarrow> pmnode list" where
  "cut_node (Text s ms) from to = Text (take (to - from) (drop from s)) ms"
| "cut_node (Node t a cs) from to =
     (if from = 0 \<and> to = sum_list (map nodeSize cs) then Node t a cs
      else Node t a (if from < to then cut_nodes cs 0 from to else []))"
| "cut_nodes [] pos from to = []"
| "cut_nodes (c # cs) pos from to =
     (if pos < to then
        (if from < pos + nodeSize c then
           [if pos < from \<or> to < pos + nodeSize c then
              (if isText c then cut_node c (from - pos) (min (length (text_of c)) (to - pos))
               else cut_node c (from - pos - 1)
                      (min (sum_list (map nodeSize (content c))) (to - pos - 1)))
            else c]
         else [])
        @ cut_nodes cs (pos + nodeSize c) from to
      else [])"
  by pat_completeness auto
termination
  by (relation "measure (\<lambda>x. case x of Inl (n, f, t) \<Rightarrow> size n
                                  | Inr (cs, p, f, t) \<Rightarrow> size_list size cs)") simp_all

definition cut_frag :: "pmnode list \<Rightarrow> nat \<Rightarrow> nat \<Rightarrow> pmnode list" where
  "cut_frag cs from to =
     (if from = 0 \<and> to = fragSize cs then cs
      else if from < to then cut_nodes cs 0 from to else [])"

subsection \<open>The schema (lib/editor-config)\<close>

fun isInline :: "ntype \<Rightarrow> bool" where
  "isInline TextT = True"
| "isInline Hard_break = True"
| "isInline _ = False"

definition isBlock :: "ntype \<Rightarrow> bool" where
  "isBlock t = (\<not> isInline t)"

fun in_block_group :: "ntype \<Rightarrow> bool" where
  "in_block_group Paragraph = True"
| "in_block_group Heading = True"
| "in_block_group Blockquote = True"
| "in_block_group Code_block = True"
| "in_block_group Horizontal_rule = True"
| "in_block_group Image = True"
| "in_block_group Bullet_list = True"
| "in_block_group Ordered_list = True"
| "in_block_group Task_list = True"
| "in_block_group Toggle_list = True"
| "in_block_group Callout = True"
| "in_block_group _ = False"

fun inlineContent :: "ntype \<Rightarrow> bool" where
  "inlineContent Paragraph = True"
| "inlineContent Heading = True"
| "inlineContent Code_block = True"
| "inlineContent _ = False"

definition isTextblock :: "ntype \<Rightarrow> bool" where
  "isTextblock t = (isBlock t \<and> inlineContent t)"

fun paragraph_then_blocks :: "ntype list \<Rightarrow> bool" where
  "paragraph_then_blocks [] = False"
| "paragraph_then_blocks (t # ts) = (t = Paragraph \<and> list_all in_block_group ts)"

fun valid_content :: "ntype \<Rightarrow> ntype list \<Rightarrow> bool" where
  "valid_content Doc ts = (ts \<noteq> [] \<and> list_all in_block_group ts)"
| "valid_content Paragraph ts = list_all isInline ts"
| "valid_content Heading ts = list_all isInline ts"
| "valid_content Blockquote ts = (ts \<noteq> [] \<and> list_all in_block_group ts)"
| "valid_content Code_block ts = list_all (\<lambda>t. t = TextT) ts"
| "valid_content Bullet_list ts = (ts \<noteq> [] \<and> list_all (\<lambda>t. t = List_item) ts)"
| "valid_content Ordered_list ts = (ts \<noteq> [] \<and> list_all (\<lambda>t. t = List_item) ts)"
| "valid_content List_item ts = paragraph_then_blocks ts"
| "valid_content Task_list ts = (ts \<noteq> [] \<and> list_all (\<lambda>t. t = Task_item) ts)"
| "valid_content Task_item ts = paragraph_then_blocks ts"
| "valid_content Toggle_list ts = (ts \<noteq> [] \<and> list_all (\<lambda>t. t = Toggle_item) ts)"
| "valid_content Toggle_item ts = paragraph_then_blocks ts"
| "valid_content Callout ts = paragraph_then_blocks ts"
| "valid_content _ ts = (ts = [])"

fun allowsMarks :: "ntype \<Rightarrow> mark list \<Rightarrow> bool" where
  "allowsMarks Paragraph ms = True"
| "allowsMarks Heading ms = True"
| "allowsMarks _ ms = (ms = [])"

definition validContent :: "ntype \<Rightarrow> pmnode list \<Rightarrow> bool" where
  "validContent t cs =
     (valid_content t (map type_of cs) \<and> list_all (\<lambda>c. allowsMarks t (marks_of c)) cs)"

definition canReplace :: "pmnode \<Rightarrow> nat \<Rightarrow> nat \<Rightarrow> pmnode list \<Rightarrow> bool" where
  "canReplace node from to replacement =
     (valid_content (type_of node)
        (map type_of (take from (content node) @ replacement @ drop to (content node)))
      \<and> list_all (\<lambda>c. allowsMarks (type_of node) (marks_of c)) replacement)"

subsection \<open>Replacing a range (prosemirror-model replace, prosemirror-transform replaceStep)\<close>

definition sameMarkup :: "pmnode \<Rightarrow> pmnode \<Rightarrow> bool" where
  "sameMarkup a b =
     (case (a, b) of
        (Text s ms, Text s' ms') \<Rightarrow> ms = ms'
      | (Node t at cs, Node t' at' cs') \<Rightarrow> t = t' \<and> at = at'
      | _ \<Rightarrow> False)"

definition addNode :: "pmnode list \<Rightarrow> pmnode \<Rightarrow> pmnode list" where
  "addNode target child =
     (if target \<noteq> [] \<and> isText child \<and> sameMarkup child (last target)
      then butlast target @ [withText (last target) (text_of (last target) @ text_of child)]
      else target @ [child])"

definition append_frag :: "pmnode list \<Rightarrow> pmnode list \<Rightarrow> pmnode list" where
  "append_frag xs ys =
     (if fragSize ys = 0 then xs
      else if fragSize xs = 0 then ys
      else if isText (last xs) \<and> sameMarkup (last xs) (hd ys)
      then butlast xs @ [withText (last xs) (text_of (last xs) @ text_of (hd ys))] @ tl ys
      else xs @ ys)"

definition nodeBefore :: "rpos \<Rightarrow> pmnode option" where
  "nodeBefore r =
     (let index = index_at r (depth r); dOff = textOffset r in
      if dOff \<noteq> 0 then Some (cut_node (content (parent r) ! index) 0 dOff)
      else if index = 0 then None
      else Some (content (parent r) ! (index - 1)))"

definition nodeAfter :: "rpos \<Rightarrow> pmnode option" where
  "nodeAfter r =
     (let index = index_at r (depth r); dOff = textOffset r in
      if index = length (content (parent r)) then None
      else if dOff \<noteq> 0
      then Some (cut_node (content (parent r) ! index) dOff
                   (nodeSize (content (parent r) ! index)))
      else Some (content (parent r) ! index))"

definition replaceTwoWay :: "rpos \<Rightarrow> rpos \<Rightarrow> pmnode list" where
  "replaceTwoWay rfrom rto =
     (let cs = content (parent rfrom);
          left = take (index_at rfrom (depth rfrom)) cs
                 @ (if textOffset rfrom \<noteq> 0
                    then (case nodeBefore rfrom of Some n \<Rightarrow> [n] | None \<Rightarrow> []) else []);
          right = (if textOffset rto \<noteq> 0
                   then (case nodeAfter rto of Some n \<Rightarrow> [n] | None \<Rightarrow> []) else [])
                  @ drop (index_at rto (depth rto) + (if textOffset rto \<noteq> 0 then 1 else 0)) cs
      in foldl addNode [] (left @ right))"

fun rebuild :: "(pmnode \<times> nat \<times> nat) list \<Rightarrow> pmnode list \<Rightarrow> pmnode" where
  "rebuild [] cs' = Node Doc [] cs'"
| "rebuild [(n, i, off)] cs' = copy n cs'"
| "rebuild ((n, i, off) # rest) cs' = copy n ((content n)[i := rebuild rest cs'])"

text \<open>
  \<open>replace_range d from to slice\<close> is \<open>Transform.replace\<close> with a closed slice, the form
  \<open>delete\<close>, \<open>insert\<close> and \<open>replaceWith\<close> all reduce to.
\<close>

definition replace_range :: "pmnode \<Rightarrow> nat \<Rightarrow> nat \<Rightarrow> pmnode list \<Rightarrow> failure + pmnode" where
  "replace_range d from to slice =
     (if from = to \<and> fragSize slice = 0 then Inr d
      else case resolve d from of
        Inl e \<Rightarrow> Inl e
      | Inr rfrom \<Rightarrow>
         (case resolve d to of
            Inl e \<Rightarrow> Inl e
          | Inr rto \<Rightarrow>
             if from \<le> to
                \<and> start_at rfrom (depth rfrom) = start_at rto (depth rto)
                \<and> canReplace (parent rfrom) (index_at rfrom (depth rfrom))
                      (index_at rto (depth rto)) slice
             then
               (let cs = content (parent rfrom);
                    cs' = (if fragSize slice = 0 then replaceTwoWay rfrom rto
                           else append_frag
                                  (append_frag (cut_frag cs 0 (rp_parentOffset rfrom)) slice)
                                  (cut_frag cs (rp_parentOffset rto) (fragSize cs)))
                in if validContent (type_of (parent rfrom)) cs'
                   then Inr (rebuild (rp_path rfrom) cs')
                   else Inl RangeError)
             else Inl Beyond_model))"

subsection \<open>Selections, transactions and the view state\<close>

text \<open>
  A text selection is an anchor and a head; a node selection is the position before the
  selected node. \<open>Unplaced p\<close> stands for the selection ProseMirror's \<open>Selection.near\<close>
  (or a node selection's own mapping) picks around the mapped position \<open>p\<close> when a
  transaction leaves the old selection outside inline content; the search itself is not
  part of this development, and reading such a selection gives \<open>Beyond_model\<close>.
\<close>

datatype selection = TextSelection nat nat | NodeSelection nat | Unplaced nat

fun selection_from :: "selection \<Rightarrow> failure + nat" where
  "selection_from (TextSelection anchor head) = Inr (min anchor head)"
| "selection_from (NodeSelection p) = Inr p"
| "selection_from (Unplaced p) = Inl Beyond_model"

record slash_state =
  active :: bool
  query :: jsstring
  menu_from :: nat
  menu_to :: nat

definition slash_init :: slash_state where
  "slash_init = \<lparr>active = False, query = [], menu_from = 0, menu_to = 0\<rparr>"

datatype slash_meta = No_meta | Meta_null | Meta_state slash_state

record view_state =
  doc :: pmnode
  selection :: selection
  slashMenu :: slash_state

record transaction =
  tr_doc :: pmnode
  tr_steps :: "(nat \<times> nat \<times> nat) list"
  tr_meta :: slash_meta
  tr_setSelection :: "selection option"

definition new_tr :: "view_state \<Rightarrow> transaction" where
  "new_tr st = \<lparr>tr_doc = doc st, tr_steps = [], tr_meta = No_meta, tr_setSelection = None\<rparr>"

definition tr_replace ::
  "transaction \<Rightarrow> nat \<Rightarrow> nat \<Rightarrow> pmnode list \<Rightarrow> failure + transaction" where
  "tr_replace tr from to slice =
     (if from = to \<and> fragSize slice = 0 then Inr tr
      else case replace_range (tr_doc tr) from to slice of
        Inl e \<Rightarrow> Inl e
      | Inr d' \<Rightarrow> Inr (tr\<lparr>tr_doc := d',
                            tr_steps := tr_steps tr @ [(from, to - from, fragSize slice)]\<rparr>))"

definition tr_delete :: "transaction \<Rightarrow> nat \<Rightarrow> nat \<Rightarrow> failure + transaction" where
  "tr_delete tr from to = tr_replace tr from to []"

definition tr_insert :: "transaction \<Rightarrow> nat \<Rightarrow> pmnode list \<Rightarrow> failure + transaction" where
  "tr_insert tr pos nodes = tr_replace tr pos pos nodes"


text \<open>\<open>StepMap.map\<close> with the default association \<open>1\<close>, for one replaced range.\<close>

fun map_pos :: "nat \<times> nat \<times> nat \<Rightarrow> nat \<Rightarrow> nat" where
  "map_pos (start, oldSize, newSize) pos =
     (if pos < start then pos
      else if pos \<le> start + oldSize then
        (if oldSize = 0 then start + newSize
         else if pos = start then start
         else start + newSize)
      else pos - oldSize + newSize)"

definition map_through :: "(nat \<times> nat \<times> nat) list \<Rightarrow> nat \<Rightarrow> nat" where
  "map_through steps pos = foldl (\<lambda>p m. map_pos m p) pos steps"

definition in_inline_content :: "pmnode \<Rightarrow> nat \<Rightarrow> bool" where
  "in_inline_content d pos =
     (case resolve d pos of Inl e \<Rightarrow> False | Inr r \<Rightarrow> inlineContent (type_of (parent r)))"

fun map_selection :: "pmnode \<Rightarrow> (nat \<times> nat \<times> nat) list \<Rightarrow> selection \<Rightarrow> selection" where
  "map_selection d steps (TextSelection anchor head) =
     (if \<not> in_inline_content d (map_through steps head) then Unplaced (map_through steps head)
      else if in_inline_content d (map_through steps anchor)
      then TextSelection (map_through steps anchor) (map_through steps head)
      else TextSelection (map_through steps head) (map_through steps head))"
| "map_selection d steps (NodeSelection p) = Unplaced (map_through steps p)"
| "map_selection d steps (Unplaced p) = Unplaced (map_through steps p)"

definition tr_selection :: "view_state \<Rightarrow> transaction \<Rightarrow> selection" where
  "tr_selection st tr =
     (case tr_setSelection tr of
        Some s \<Rightarrow> s
      | None \<Rightarrow> if tr_steps tr = [] then selection st
                else map_selection (tr_doc tr) (tr_steps tr) (selection st))"

subsection \<open>Text before the cursor\<close>

definition leafText :: jsstring where
  "leafText = [65532]"

lemma size_content_le: "size_list size (content c) \<le> size c"
  by (cases c) simp_all

function textBetween_nodes :: "pmnode list \<Rightarrow> nat \<Rightarrow> nat \<Rightarrow> nat \<Rightarrow> jsstring" where
  "textBetween_nodes [] pos from to = []"
| "textBetween_nodes (c # cs) pos from to =
     (if pos < to then
        (if from < pos + nodeSize c then
           (if isText c then take (to - pos - (from - pos)) (drop (from - pos) (text_of c))
            else if isLeafType (type_of c) then leafText
            else [])
           @ (if fragSize (content c) \<noteq> 0
              then textBetween_nodes (content c) 0 (from - (pos + 1))
                     (min (fragSize (content c)) (to - (pos + 1)))
              else [])
         else [])
        @ textBetween_nodes cs (pos + nodeSize c) from to
      else [])"
  by pat_completeness auto
termination
proof (relation "measure (\<lambda>(cs, p, f, t). size_list size cs)")
  show "wf (measure (\<lambda>(cs, p, f, t). size_list size cs))" by simp
next
  fix c :: pmnode and cs :: "pmnode list" and pos "from" to :: nat
  have "size_list size (content c) \<le> size c" by (rule size_content_le)
  then show "((content c, 0, from - (pos + 1), min (fragSize (content c)) (to - (pos + 1))),
              c # cs, pos, from, to) \<in> measure (\<lambda>(cs, p, f, t). size_list size cs)"
    by simp
next
  fix c :: pmnode and cs :: "pmnode list" and pos "from" to :: nat
  show "((cs, pos + nodeSize c, from, to), c # cs, pos, from, to)
          \<in> measure (\<lambda>(cs, p, f, t). size_list size cs)"
    by simp
qed

definition textBetween :: "pmnode \<Rightarrow> nat \<Rightarrow> nat \<Rightarrow> jsstring" where
  "textBetween node from to = textBetween_nodes (content node) 0 from to"

definition textBefore :: "rpos \<Rightarrow> jsstring" where
  "textBefore r = textBetween (parent r) 0 (rp_parentOffset r)"

subsection \<open>The slash-menu plugin state (lib/slash-command)\<close>

fun lastIndexOf :: "jsstring \<Rightarrow> nat \<Rightarrow> nat option" where
  "lastIndexOf [] c = None"
| "lastIndexOf (x # xs) c =
     (case lastIndexOf xs c of
        Some i \<Rightarrow> Some (Suc i)
      | None \<Rightarrow> if x = c then Some 0 else None)"

definition slash_apply ::
  "pmnode \<Rightarrow> bool \<Rightarrow> selection \<Rightarrow> slash_meta \<Rightarrow> slash_state \<Rightarrow> failure + slash_state" where
  "slash_apply d docChanged sel meta prev =
     (case meta of
        Meta_null \<Rightarrow> Inr slash_init
      | Meta_state m \<Rightarrow> Inr m
      | No_meta \<Rightarrow>
          if active prev \<and> docChanged then
            (case selection_from sel of
               Inl e \<Rightarrow> Inl e
             | Inr cursor \<Rightarrow>
                (case resolve d cursor of
                   Inl e \<Rightarrow> Inl e
                 | Inr r \<Rightarrow>
                    (case lastIndexOf (textBefore r) 47 of
                       None \<Rightarrow> Inr slash_init
                     | Some slashIndex \<Rightarrow>
                         if 32 \<in> set (drop (slashIndex + 1) (textBefore r)) then Inr slash_init
                         else Inr \<lparr>active = True,
                                   query = drop (slashIndex + 1) (textBefore r),
                                   menu_from = start_at r (depth r) + slashIndex,
                                   menu_to = cursor\<rparr>)))
          else if active prev \<and> \<not> docChanged then
            (case selection_from sel of
               Inl e \<Rightarrow> Inl e
             | Inr cursor \<Rightarrow>
                 if cursor < menu_from prev \<or> cursor > menu_to prev + 20 then Inr slash_init
                 else Inr prev)
          else Inr prev)"

definition dispatch :: "view_state \<Rightarrow> transaction \<Rightarrow> failure + view_state" where
  "dispatch st tr =
     (case slash_apply (tr_doc tr) (tr_steps tr \<noteq> []) (tr_selection st tr) (tr_meta tr)
             (slashMenu st) of
        Inl e \<Rightarrow> Inl e
      | Inr menu \<Rightarrow>
          Inr \<lparr>doc = tr_doc tr, selection = tr_selection st tr, slashMenu = menu\<rparr>)"

section \<open>Streaming AI text into the document (components/Editor)\<close>

subsection \<open>String helpers\<close>

text \<open>
  \<open>String.prototype.trim\<close> removes white space and line terminators at both ends; the
  regular expressions' \<open>\s\<close> matches the same code units.
\<close>

definition is_ws :: "nat \<Rightarrow> bool" where
  "is_ws c = (c \<in> {9, 10, 11, 12, 13, 32, 160, 5760, 8232, 8233, 8239, 8287, 12288, 65279}
              \<or> (8192 \<le> c \<and> c \<le> 8202))"

definition is_line_terminator :: "nat \<Rightarrow> bool" where
  "is_line_terminator c = (c \<in> {10, 13, 8232, 8233})"

definition trim :: "jsstring \<Rightarrow> jsstring" where
  "trim s = rev (dropWhile is_ws (rev (dropWhile is_ws s)))"

definition startsWith :: "jsstring \<Rightarrow> jsstring \<Rightarrow> bool" where
  "startsWith s p = (take (length p) s = p)"

definition pmjson_marker :: jsstring where
  "pmjson_marker = js ''<<<PMJSON>>>''"

text \<open>
  \<open>/<<<PMJSON>>>(.+?)<<<PMJSON>>>/\<close>: \<open>lazy_group\<close> reads the group after an opening
  marker, the shortest non-empty run without a line terminator that a marker follows;
  \<open>pmjson_match\<close> tries every start from the left and returns the group.
\<close>

fun lazy_group :: "jsstring \<Rightarrow> jsstring \<Rightarrow> jsstring option" where
  "lazy_group acc [] = None"
| "lazy_group acc (c # cs) =
     (if acc \<noteq> [] \<and> startsWith (c # cs) pmjson_marker then Some acc
      else if is_line_terminator c then None
      else lazy_group (acc @ [c]) cs)"

fun pmjson_match :: "jsstring \<Rightarrow> jsstring option" where
  "pmjson_match [] = None"
| "pmjson_match (c # cs) =
     (if startsWith (c # cs) pmjson_marker then
        (case lazy_group [] (drop (length pmjson_marker) (c # cs)) of
           Some g \<Rightarrow> Some g
         | None \<Rightarrow> pmjson_match cs)
      else pmjson_match cs)"

text \<open>
  \<open>replace(/<<<PMJSON>>>.*<<<PMJSON>>>/, "")\<close>: \<open>greedy_end run\<close> is the offset of the last
  marker inside the run of non-terminators that follows an opening marker;
  \<open>strip_pmjson\<close> removes the leftmost match.
\<close>

fun greedy_end :: "jsstring \<Rightarrow> nat option" where
  "greedy_end [] = None"
| "greedy_end (c # cs) =
     (case greedy_end cs of
        Some j \<Rightarrow> Some (Suc j)
      | None \<Rightarrow> if startsWith (c # cs) pmjson_marker then Some 0 else None)"

fun strip_pmjson :: "jsstring \<Rightarrow> jsstring" where
  "strip_pmjson [] = []"
| "strip_pmjson (c # cs) =
     (if startsWith (c # cs) pmjson_marker then
        (case greedy_end (takeWhile (\<lambda>x. \<not> is_line_terminator x)
                            (drop (length pmjson_marker) (c # cs))) of
           Some j \<Rightarrow> drop (2 * length pmjson_marker + j) (c # cs)
         | None \<Rightarrow> c # strip_pmjson cs)
      else c # strip_pmjson cs)"

definition displayText :: "jsstring \<Rightarrow> jsstring" where
  "displayText apiText = trim (strip_pmjson apiText)"

subsection \<open>The editor component's references\<close>

record editor =
  view :: view_state
  lastInsertedLength :: nat
  aiTextStartPos :: "nat option"
  fullAiText :: jsstring
  parsedJson :: "json option"
  isReplacingSelection :: bool
  originalText :: jsstring
  selectionRange :: "(nat \<times> nat) option"
  showToolbar :: bool

definition emMark :: mark where
  "emMark = Mark Em []"

text \<open>
  The effect on \<open>apiText\<close> (\<open>JSON.parse\<close> is the parameter \<open>parse\<close>, \<open>None\<close> where it
  throws). An exception inside the effect ends the run with \<open>Inl\<close>.
\<close>

definition note_json :: "(jsstring \<Rightarrow> json option) \<Rightarrow> editor \<Rightarrow> jsstring \<Rightarrow> editor" where
  "note_json parse e apiText =
     (case pmjson_match apiText of
        None \<Rightarrow> e\<lparr>fullAiText := apiText\<rparr>
      | Some g \<Rightarrow>
         (case parse g of
            Some j \<Rightarrow> e\<lparr>parsedJson := Some j, fullAiText := displayText apiText\<rparr>
          | None \<Rightarrow> e\<lparr>fullAiText := apiText\<rparr>))"

definition insert_position :: "editor \<Rightarrow> failure + nat" where
  "insert_position e =
     (case aiTextStartPos e of
        Some p \<Rightarrow> Inr (p + lastInsertedLength e)
      | None \<Rightarrow> selection_from (selection (view e)))"

definition insert_chunk :: "editor \<Rightarrow> jsstring \<Rightarrow> failure + editor" where
  "insert_chunk e newChunk =
     (case insert_position e of
        Inl err \<Rightarrow> Inl err
      | Inr insertPos \<Rightarrow>
         (case tr_insert (new_tr (view e))
                 (insertPos + lastInsertedLength e
                    - (if lastInsertedLength e > 0 then lastInsertedLength e else 0))
                 [Text newChunk [emMark]] of
            Inl err \<Rightarrow> Inl err
          | Inr tr \<Rightarrow>
             (case dispatch (view e) tr of
                Inl err \<Rightarrow> Inl err
              | Inr v \<Rightarrow>
                  Inr (e\<lparr>view := v,
                         aiTextStartPos :=
                           Some (case aiTextStartPos e of None \<Rightarrow> insertPos | Some p \<Rightarrow> p)\<rparr>))))"

text \<open>
  \<open>new_chunk n apiText\<close> is \<open>displayText.slice(n).replace(/\r/g, "")\<close>, the text the effect
  inserts when \<open>n\<close> code units of the display text are already in the document.
\<close>

definition new_chunk :: "nat \<Rightarrow> jsstring \<Rightarrow> jsstring" where
  "new_chunk n apiText = filter (\<lambda>c. c \<noteq> 13) (drop n (displayText apiText))"

definition stream_effect ::
  "(jsstring \<Rightarrow> json option) \<Rightarrow> editor \<Rightarrow> jsstring option \<Rightarrow> failure + editor" where
  "stream_effect parse e apiText =
     (if apiText = None \<or> apiText = Some [] then
        Inr (e\<lparr>lastInsertedLength := 0, fullAiText := [], parsedJson := None\<rparr>)
      else
        (let t = (case apiText of Some t \<Rightarrow> t | None \<Rightarrow> []);
             e1 = note_json parse e t in
         if length (displayText t) > lastInsertedLength e1 then
           (let newChunk = new_chunk (lastInsertedLength e1) t in
            if newChunk \<noteq> [] then
              (case insert_chunk e1 newChunk of
                 Inl err \<Rightarrow> Inl err
               | Inr e2 \<Rightarrow> Inr (e2\<lparr>lastInsertedLength := length (displayText t)\<rparr>))
            else Inr (e1\<lparr>lastInsertedLength := length (displayText t)\<rparr>))
         else Inr e1))"

definition reset_refs :: "editor \<Rightarrow> editor" where
  "reset_refs e =
     e\<lparr>aiTextStartPos := None, lastInsertedLength := 0, fullAiText := [],
       isReplacingSelection := False, originalText := [], selectionRange := None,
       showToolbar := False\<rparr>"

definition handleReject :: "editor \<Rightarrow> failure + editor" where
  "handleReject e =
     (case aiTextStartPos e of
        None \<Rightarrow> Inr (reset_refs e)
      | Some startPos \<Rightarrow>
          if fragSize (content (doc (view e))) = 0 then Inl RangeError
          else
            (case tr_delete (new_tr (view e)) startPos
                    (fragSize (content (doc (view e))) - 1) of
               Inl err \<Rightarrow> Inl err
             | Inr tr \<Rightarrow>
                (case (if isReplacingSelection e \<and> originalText e \<noteq> []
                       then tr_insert tr startPos [Text (originalText e) []]
                       else Inr tr) of
                   Inl err \<Rightarrow> Inl err
                 | Inr tr' \<Rightarrow>
                    (case dispatch (view e) tr' of
                       Inl err \<Rightarrow> Inl err
                     | Inr v \<Rightarrow> Inr (reset_refs (e\<lparr>view := v\<rparr>))))))"

text \<open>
  \<open>handleSelectionAiAction\<close>: the selection toolbar's action over the selected text
  (\<open>selectedText\<close> is the component's state of that name).
\<close>

definition handleSelectionAiAction :: "editor \<Rightarrow> jsstring \<Rightarrow> failure + editor" where
  "handleSelectionAiAction e selected =
     (if selected = [] then Inr e
      else case selection (view e) of
        TextSelection anchor head \<Rightarrow>
          (case tr_delete (new_tr (view e)) (min anchor head) (max anchor head) of
             Inl err \<Rightarrow> Inl err
           | Inr tr \<Rightarrow>
              (case dispatch (view e)
                      (tr\<lparr>tr_setSelection :=
                            Some (TextSelection (min anchor head) (min anchor head))\<rparr>) of
                 Inl err \<Rightarrow> Inl err
               | Inr v \<Rightarrow>
                   Inr (e\<lparr>view := v, selectionRange := Some (min anchor head, max anchor head),
                          isReplacingSelection := True, originalText := selected,
                          aiTextStartPos := Some (min anchor head),
                          lastInsertedLength := 0\<rparr>)))
      | _ \<Rightarrow> Inl Beyond_model)"

subsection \<open>The page: machine and editor together (pages/LandingPage)\<close>

text \<open>
  The page renders the editor with \<open>apiText = state.context.generatedText\<close>; the effect
  runs when that value changes. The toolbar's reject button runs \<open>handleReject\<close> and then
  sends \<open>REJECT\<close>.
\<close>

record page =
  machine :: machine
  editor :: editor

definition rerender ::
  "(jsstring \<Rightarrow> json option) \<Rightarrow> jsstring \<Rightarrow> machine \<Rightarrow> editor \<Rightarrow> failure + page" where
  "rerender parse oldText m e =
     (if generatedText (ctx m) = oldText then Inr \<lparr>machine = m, editor = e\<rparr>
      else case stream_effect parse e (Some (generatedText (ctx m))) of
        Inl err \<Rightarrow> Inl err
      | Inr e' \<Rightarrow> Inr \<lparr>machine = m, editor = e'\<rparr>)"

definition deliver :: "(jsstring \<Rightarrow> json option) \<Rightarrow> page \<Rightarrow> event \<Rightarrow> failure + page" where
  "deliver parse p ev =
     rerender parse (generatedText (ctx (machine p))) (send (machine p) ev) (editor p)"

definition click_reject :: "(jsstring \<Rightarrow> json option) \<Rightarrow> page \<Rightarrow> failure + page" where
  "click_reject parse p =
     (case handleReject (editor p) of
        Inl err \<Rightarrow> Inl err
      | Inr e' \<Rightarrow> deliver parse (p\<lparr>editor := e'\<rparr>) REJECT)"

fun deliver_all :: "(jsstring \<Rightarrow> json option) \<Rightarrow> page \<Rightarrow> event list \<Rightarrow> failure + page" where
  "deliver_all parse p [] = Inr p"
| "deliver_all parse p (ev # evs) =
     (case deliver parse p ev of Inl err \<Rightarrow> Inl err | Inr p' \<Rightarrow> deliver_all parse p' evs)"

section \<open>Block commands (lib/editor-utils, lib/block-commands)\<close>

subsection \<open>Finding the block around the selection\<close>

text \<open>
  \<open>findParentNode\<close> walks from the depth of \<open>$from\<close> up to depth 1 and returns the first
  node that satisfies the predicate, with the position before it.
\<close>

fun findParentNode_from ::
  "(pmnode \<Rightarrow> bool) \<Rightarrow> rpos \<Rightarrow> nat \<Rightarrow> failure + (nat \<times> pmnode \<times> nat) option" where
  "findParentNode_from predicate r 0 = Inr None"
| "findParentNode_from predicate r (Suc k) =
     (if predicate (node_at r (Suc k)) then
        (case before_at r (Suc k) of
           Inl e \<Rightarrow> Inl e
         | Inr pos \<Rightarrow> Inr (Some (pos, node_at r (Suc k), Suc k)))
      else findParentNode_from predicate r k)"

definition findParentNode ::
  "(pmnode \<Rightarrow> bool) \<Rightarrow> pmnode \<Rightarrow> selection \<Rightarrow> failure + (nat \<times> pmnode \<times> nat) option" where
  "findParentNode predicate d sel =
     (case selection_from sel of
        Inl e \<Rightarrow> Inl e
      | Inr from \<Rightarrow>
         (case resolve d from of
            Inl e \<Rightarrow> Inl e
          | Inr r \<Rightarrow> findParentNode_from predicate r (depth r)))"

definition getBlockRange ::
  "pmnode \<Rightarrow> selection \<Rightarrow> failure + (nat \<times> nat \<times> pmnode) option" where
  "getBlockRange d sel =
     (case findParentNode (\<lambda>n. isBlock (type_of n)) d sel of
        Inl e \<Rightarrow> Inl e
      | Inr None \<Rightarrow> Inr None
      | Inr (Some (pos, node, dp)) \<Rightarrow> Inr (Some (pos, pos + nodeSize node, node)))"

subsection \<open>Joining with the block above (prosemirror-commands joinUp)\<close>














subsection \<open>Moving and deleting the current block\<close>






definition deleteBlock :: "view_state \<Rightarrow> failure + bool \<times> view_state" where
  "deleteBlock st =
     (case getBlockRange (doc st) (selection st) of
        Inl e \<Rightarrow> Inl e
      | Inr None \<Rightarrow> Inr (False, st)
      | Inr (Some (start, end, node)) \<Rightarrow>
          if length (content (doc st)) = 1 then
            (case tr_delete (new_tr st) (start + 1) (end - 1) of
               Inl e \<Rightarrow> Inl e
             | Inr tr \<Rightarrow>
                (case dispatch st tr of
                   Inl e \<Rightarrow> Inl e
                 | Inr st' \<Rightarrow> Inr (True, st')))
          else
            (case tr_delete (new_tr st) start end of
               Inl e \<Rightarrow> Inl e
             | Inr tr \<Rightarrow>
                (case dispatch st tr of
                   Inl e \<Rightarrow> Inl e
                 | Inr st' \<Rightarrow> Inr (True, st'))))"

section \<open>Typing text (prosemirror-view, prosemirror-inputrules, lib/input-rules)\<close>

subsection \<open>Marks of typed text\<close>







subsection \<open>The rules of \<open>buildInputRules\<close>\<close>

text \<open>
  One constructor for every rule, in the order \<open>buildInputRules\<close> pushes them: the
  library's smart quotes, ellipsis and em dash, the six heading rules, and the
  repository's block and inline rules.
\<close>

datatype rule =
    OpenDoubleQuote | CloseDoubleQuote | OpenSingleQuote | CloseSingleQuote | Ellipsis | EmDash
  | HeadingRule nat
  | TaskRule | CheckedTaskRule | ToggleRule
  | BlockquoteRule | BulletRule | OrderedRule
  | CodeBlockRule | CodeBlockLanguageRule
  | HorizontalRule
  | CalloutRule | CalloutInfoRule | CalloutWarningRule | CalloutSuccessRule | CalloutErrorRule
  | BoldStarsRule | BoldUnderscoresRule | ItalicStarRule | ItalicUnderscoreRule
  | InlineCodeRule | StrikethroughRule | HighlightRule





















subsection \<open>The slash key (lib/slash-command, \<open>handleKeyDown\<close>)\<close>




section \<open>Converting a structured payload (components/Editor, \<open>jsonToNodes\<close>)\<close>

subsection \<open>JSON values as JavaScript reads them\<close>







subsection \<open>The schema's names and attributes (lib/editor-config)\<close>









subsection \<open>\<open>convertNode\<close> and \<open>jsonToNodes\<close>\<close>













section \<open>Notions used in the proofs\<close>

subsection \<open>Well-formed resolution paths\<close>

text \<open>
  A well-formed path from node \<open>n\<close>, whose content starts at position \<open>s\<close>: every entry
  names a node, the index of a child and the position before that child, and the next
  entry is that child, which is neither a text node nor a leaf.
\<close>

fun path_ok :: "pmnode \<Rightarrow> nat \<Rightarrow> (pmnode \<times> nat \<times> nat) list \<Rightarrow> bool" where
  "path_ok n s [] = False"
| "path_ok n s [(m, i, off)] =
     (m = n \<and> i \<le> length (content n) \<and> off = s + fragSize (take i (content n)))"
| "path_ok n s ((m, i, off) # e # rest) =
     (m = n \<and> i < length (content n) \<and> off = s + fragSize (take i (content n))
      \<and> \<not> isText (content n ! i)
      \<and> nodeSize (content n ! i) = 2 + fragSize (content (content n ! i))
      \<and> path_ok (content n ! i) (off + 1) (e # rest))"

definition cstart :: "nat \<Rightarrow> (pmnode \<times> nat \<times> nat) list \<Rightarrow> nat \<Rightarrow> nat" where
  "cstart s path k = (if k = 0 then s else snd (snd (path ! (k - 1))) + 1)"

subsection \<open>A node put in the place a path leads to\<close>

text \<open>
  \<open>plug pre x\<close> is the node at the top of the path \<open>pre\<close> with \<open>x\<close> in the place of the child
  the path leads to, and \<open>plug_path pre x\<close> is the path to \<open>x\<close> in that node.
\<close>

fun plug :: "(pmnode \<times> nat \<times> nat) list \<Rightarrow> pmnode \<Rightarrow> pmnode" where
  "plug [] x = x"
| "plug ((n, i, off) # rest) x = copy n ((content n)[i := plug rest x])"

fun plug_path :: "(pmnode \<times> nat \<times> nat) list \<Rightarrow> pmnode \<Rightarrow> (pmnode \<times> nat \<times> nat) list" where
  "plug_path [] x = []"
| "plug_path ((n, i, off) # rest) x = (plug ((n, i, off) # rest) x, i, off) # plug_path rest x"

text \<open>\<open>content_start pre\<close> is the position at which the content of that child starts.\<close>

definition content_start :: "(pmnode \<times> nat \<times> nat) list \<Rightarrow> nat" where
  "content_start pre = (if pre = [] then 0 else snd (snd (last pre)) + 1)"

subsection \<open>Typed text\<close>

text \<open>
  The content of a textblock that holds the unmarked text \<open>s\<close>, and the task list the
  task rule creates.
\<close>

definition text_content :: "jsstring \<Rightarrow> pmnode list" where
  "text_content s = (if s = [] then [] else [Text s []])"


section \<open>Example editor states\<close>

text \<open>
  Concrete documents, editors and pages on which the operations are evaluated.
\<close>

definition ab_editor :: editor where
  "ab_editor =
     \<lparr>view = \<lparr>doc = Node Doc [] [Node Paragraph [] [Text (js ''ab'') []]],
               selection = TextSelection 2 2, slashMenu = slash_init\<rparr>,
      lastInsertedLength = 0, aiTextStartPos = None, fullAiText = [], parsedJson = None,
      isReplacingSelection = False, originalText = [], selectionRange = None,
      showToolbar = False\<rparr>"

definition ab_page :: page where
  "ab_page = \<lparr>machine = \<lparr>state = Idle, ctx = initial_context\<rparr>, editor = ab_editor\<rparr>"

definition generate_request :: event where
  "generate_request =
     GENERATE \<lparr>currentText = js ''ab'', tone = js ''neutral'',
               editorContext = None, length_hint = None\<rparr>"

definition no_parse :: "jsstring \<Rightarrow> json option" where
  "no_parse s = None"

definition after_hello :: editor where
  "after_hello = ab_editor\<lparr>
     view := \<lparr>doc = Node Doc [] [Node Paragraph []
                 [Text (js ''a'') [], Text (js ''Hello'') [emMark], Text (js ''b'') []]],
              selection = TextSelection 7 7, slashMenu = slash_init\<rparr>,
     lastInsertedLength := 5, aiTextStartPos := Some 2, fullAiText := js ''Hello''\<rparr>"

definition after_world :: editor where
  "after_world = ab_editor\<lparr>
     view := \<lparr>doc = Node Doc [] [Node Paragraph []
                 [Text (js ''a'') [], Text (js ''Hello world'') [emMark], Text (js ''b'') []]],
              selection = TextSelection 13 13, slashMenu = slash_init\<rparr>,
     lastInsertedLength := 11, aiTextStartPos := Some 2, fullAiText := js ''Hello world''\<rparr>"

definition hw_editor :: editor where
  "hw_editor =
     \<lparr>view = \<lparr>doc = Node Doc [] [Node Paragraph [] [Text (js ''Hello world'') []]],
               selection = TextSelection 6 6, slashMenu = slash_init\<rparr>,
      lastInsertedLength = 0, aiTextStartPos = None, fullAiText = [], parsedJson = None,
      isReplacingSelection = False, originalText = [], selectionRange = None,
      showToolbar = False\<rparr>"

definition hw_pending :: page where
  "hw_pending =
     \<lparr>machine = \<lparr>state = Pending,
                   ctx = initial_context\<lparr>generatedText := js ''XY'',
                                         pendingSuggestion := js ''XY''\<rparr>\<rparr>,
      editor = hw_editor\<lparr>
        view := \<lparr>doc = Node Doc [] [Node Paragraph []
                    [Text (js ''Hello'') [], Text (js ''XY'') [emMark], Text (js '' world'') []]],
                 selection = TextSelection 8 8, slashMenu = slash_init\<rparr>,
        lastInsertedLength := 2, aiTextStartPos := Some 6, fullAiText := js ''XY''\<rparr>\<rparr>"

definition hw_rejected :: page where
  "hw_rejected =
     \<lparr>machine = \<lparr>state = Idle, ctx = initial_context\<rparr>,
      editor = hw_editor\<lparr>
        view := \<lparr>doc = Node Doc [] [Node Paragraph [] [Text (js ''Hello'') []]],
                 selection = TextSelection 6 6, slashMenu = slash_init\<rparr>\<rparr>\<rparr>"

definition hw_streaming :: page where
  "hw_streaming =
     \<lparr>machine = \<lparr>state = Streaming, ctx = initial_context\<lparr>generatedText := js ''XY''\<rparr>\<rparr>,
      editor = editor hw_pending\<rparr>"

definition two_paragraphs :: pmnode where
  "two_paragraphs = Node Doc [] [Node Paragraph [] [Text (js ''ab'') []],
                                 Node Paragraph [] [Text (js ''cd'') []]]"


definition in_second_paragraph :: view_state where
  "in_second_paragraph = \<lparr>doc = two_paragraphs, selection = TextSelection 6 6, slashMenu = slash_init\<rparr>"

definition quoted :: pmnode where
  "quoted = Node Doc [] [Node Blockquote [] [Node Paragraph [] [Text (js ''a'') []],
                                             Node Paragraph [] [Text (js ''b'') []]]]"

definition in_quoted_paragraph :: view_state where
  "in_quoted_paragraph = \<lparr>doc = quoted, selection = TextSelection 3 3, slashMenu = slash_init\<rparr>"















definition hw_page :: page where
  "hw_page = \<lparr>machine = \<lparr>state = Idle, ctx = initial_context\<rparr>, editor = hw_editor\<rparr>"

definition cr_streamed :: page where
  "cr_streamed =
     \<lparr>machine = \<lparr>state = Streaming,
                   ctx = initial_context\<lparr>generatedText := [97, 13, 98, 99]\<rparr>\<rparr>,
      editor = hw_editor\<lparr>
        view := \<lparr>doc = Node Doc [] [Node Paragraph []
                    [Text (js ''Hello'') [], Text (js ''ab'') [emMark], Text (js '' '') [],
                     Text (js ''c'') [emMark], Text (js ''world'') []]],
                 selection = TextSelection 8 8, slashMenu = slash_init\<rparr>,
        lastInsertedLength := 4, aiTextStartPos := Some 6, fullAiText := [97, 13, 98, 99]\<rparr>\<rparr>"

definition restarted :: page where
  "restarted =
     \<lparr>machine = \<lparr>state = Streaming, ctx = initial_context\<lparr>generatedText := js ''Z''\<rparr>\<rparr>,
      editor = hw_editor\<lparr>
        view := \<lparr>doc = Node Doc [] [Node Paragraph []
                    [Text (js ''Hello'') [], Text (js ''ZXY'') [emMark], Text (js '' world'') []]],
                 selection = TextSelection 9 9, slashMenu = slash_init\<rparr>,
        lastInsertedLength := 1, aiTextStartPos := Some 6, fullAiText := js ''Z''\<rparr>\<rparr>"




section \<open>Claims about the session machine\<close>

text \<open>
  C3. In every state other than \<open>idle\<close> (streaming, pending, modifying) a generate
  request, \<open>GENERATE\<close> or \<open>GENERATE_WITH_ACTION\<close>, is not handled: the machine keeps its
  state and its context, and no actor (no new session) is started.
\<close>

theorem generate_rejected_unless_idle:
  assumes "state m \<noteq> Idle" and "is_generate e"
  shows "send m e = m \<and> started m e = None \<and> on_event (state m) (ctx m) e = None"
proof -
  have "on_event (state m) (ctx m) e = None"
    using assms by (cases "state m"; cases e) (simp_all add: is_generate_def)
  then show ?thesis by (simp add: send_def started_def)
qed

theorem generate_rejected_unless_idle_witness:
  "send \<lparr>state = Pending, ctx = initial_context\<rparr>
        (GENERATE \<lparr>currentText = js ''Once'', tone = js ''neutral'',
                   editorContext = None, length_hint = None\<rparr>)
     = \<lparr>state = Pending, ctx = initial_context\<rparr>
   \<and> started \<lparr>state = Pending, ctx = initial_context\<rparr>
        (GENERATE \<lparr>currentText = js ''Once'', tone = js ''neutral'',
                   editorContext = None, length_hint = None\<rparr>) = None"
  using generate_rejected_unless_idle
    [of "\<lparr>state = Pending, ctx = initial_context\<rparr>"
        "GENERATE \<lparr>currentText = js ''Once'', tone = js ''neutral'',
                   editorContext = None, length_hint = None\<rparr>"]
  by (simp add: is_generate_def)

text \<open>
  C4, as the code has it. From \<open>streaming\<close>, \<open>STOP\<close> and \<open>AI.ERROR\<close> lead to \<open>idle\<close>; from
  \<open>modifying\<close> they lead to \<open>pending\<close>, not to \<open>idle\<close>. On both error paths the message is
  stored in the context's \<open>error\<close> field and nothing else of the context changes.
\<close>

theorem stop_and_error_targets:
  "send \<lparr>state = Streaming, ctx = c\<rparr> STOP = \<lparr>state = Idle, ctx = c\<rparr>
   \<and> send \<lparr>state = Streaming, ctx = c\<rparr> (AI_ERROR err)
       = \<lparr>state = Idle, ctx = c\<lparr>error := Some err\<rparr>\<rparr>
   \<and> send \<lparr>state = Modifying, ctx = c\<rparr> STOP = \<lparr>state = Pending, ctx = c\<rparr>
   \<and> send \<lparr>state = Modifying, ctx = c\<rparr> (AI_ERROR err)
       = \<lparr>state = Pending, ctx = c\<lparr>error := Some err\<rparr>\<rparr>"
  by (simp add: send_def)

text \<open>
  C4 as the specification words it fails: a stop in \<open>modifying\<close> does not reach \<open>idle\<close>.
\<close>

theorem modifying_stop_not_idle:
  "state (send \<lparr>state = Modifying, ctx = initial_context\<rparr> STOP) = Pending
   \<and> state (send \<lparr>state = Modifying, ctx = initial_context\<rparr> STOP) \<noteq> Idle
   \<and> state (send \<lparr>state = Modifying, ctx = initial_context\<rparr> (AI_ERROR (js ''boom''))) \<noteq> Idle"
  by (simp add: send_def)

section \<open>Evaluation rules and lemmas for the suggestion session\<close>

lemmas pm_eval = resolve_def findIndex_def fragSize_def js_def replace_range_def
  depth_def node_at_def index_at_def offset_at_def parent_def start_at_def textOffset_def
  canReplace_def validContent_def append_frag_def cut_frag_def sameMarkup_def addNode_def
  replaceTwoWay_def nodeBefore_def nodeAfter_def Let_def
  tr_replace_def tr_insert_def tr_delete_def new_tr_def dispatch_def slash_apply_def
  tr_selection_def map_through_def in_inline_content_def slash_init_def

lemmas str_eval = displayText_def trim_def is_ws_def is_line_terminator_def startsWith_def
  pmjson_marker_def js_def new_chunk_def

lemmas ai_eval = stream_effect_def note_json_def insert_chunk_def insert_position_def
  emMark_def handleReject_def reset_refs_def rerender_def deliver_def click_reject_def
  send_def initial_context_def

lemma hello_step1:
  "deliver no_parse ab_page generate_request
     = Inr \<lparr>machine = \<lparr>state = Streaming, ctx = initial_context\<rparr>, editor = ab_editor\<rparr>"
  by (simp add: ab_page_def generate_request_def ai_eval)

lemma hello_effect1: "stream_effect no_parse ab_editor (Some (js ''Hello'')) = Inr after_hello"
  by (simp add: ab_editor_def after_hello_def no_parse_def ai_eval pm_eval str_eval)

lemma hello_effect2:
  "stream_effect no_parse after_hello (Some (js ''Hello world'')) = Inr after_world"
  by (simp add: ab_editor_def after_hello_def after_world_def no_parse_def ai_eval pm_eval str_eval)

lemma hello_step2:
  "deliver no_parse \<lparr>machine = \<lparr>state = Streaming, ctx = initial_context\<rparr>, editor = ab_editor\<rparr>
     (AI_CHUNK (js ''Hello''))
   = Inr \<lparr>machine = \<lparr>state = Streaming, ctx = initial_context\<lparr>generatedText := js ''Hello''\<rparr>\<rparr>,
          editor = after_hello\<rparr>"
  using hello_effect1
  by (simp add: deliver_def rerender_def send_def initial_context_def js_def)

lemma hello_step3:
  "deliver no_parse
     \<lparr>machine = \<lparr>state = Streaming, ctx = initial_context\<lparr>generatedText := js ''Hello''\<rparr>\<rparr>,
      editor = after_hello\<rparr>
     (AI_CHUNK (js '' world''))
   = Inr \<lparr>machine = \<lparr>state = Streaming,
                        ctx = initial_context\<lparr>generatedText := js ''Hello world''\<rparr>\<rparr>,
          editor = after_world\<rparr>"
proof -
  have "js ''Hello'' @ js '' world'' = js ''Hello world''" by (simp add: js_def)
  moreover have "js ''Hello world'' \<noteq> js ''Hello''" by (simp add: js_def)
  ultimately show ?thesis
    using hello_effect2
    by (simp add: deliver_def rerender_def send_def initial_context_def)
qed

lemma hello_world_streamed:
  "deliver_all no_parse ab_page
     [generate_request, AI_CHUNK (js ''Hello''), AI_CHUNK (js '' world'')]
   = Inr \<lparr>machine = \<lparr>state = Streaming,
                        ctx = initial_context\<lparr>generatedText := js ''Hello world''\<rparr>\<rparr>,
          editor = after_world\<rparr>"
  by (simp add: hello_step1 hello_step2 hello_step3)

lemma reset_refs_idem: "reset_refs (reset_refs e) = reset_refs e"
  by (simp add: reset_refs_def)

lemma handleReject_is_reset:
  assumes "handleReject e = Inr e'"
  shows "\<exists>x. e' = reset_refs x"
proof (cases "aiTextStartPos e")
  case None
  with assms show ?thesis by (auto simp: handleReject_def)
next
  case (Some startPos)
  with assms have "\<exists>v. e' = reset_refs (e\<lparr>view := v\<rparr>)"
    by (simp add: handleReject_def split: if_splits sum.splits) blast+
  then show ?thesis by blast
qed

lemma handleReject_cleared:
  assumes "handleReject e = Inr e'"
  shows "aiTextStartPos e' = None \<and> reset_refs e' = e'"
proof -
  from handleReject_is_reset [OF assms] obtain x where "e' = reset_refs x" by blast
  then show ?thesis by (simp add: reset_refs_def)
qed

lemma handleReject_no_session:
  "aiTextStartPos e = None \<Longrightarrow> handleReject e = Inr (reset_refs e)"
  by (simp add: handleReject_def)

lemma send_reject_idle: "state m = Idle \<Longrightarrow> send m REJECT = m"
  by (simp add: send_def)

lemma send_reject_pending:
  "state m = Pending \<Longrightarrow>
     state (send m REJECT) = Idle \<and> generatedText (ctx (send m REJECT)) = []"
  by (simp add: send_def)

lemma rerender_keeps_cleared:
  assumes "rerender parse old m e = Inr p1" and "aiTextStartPos e = None \<and> reset_refs e = e"
    and "generatedText (ctx m) = []"
  shows "machine p1 = m \<and> aiTextStartPos (editor p1) = None
         \<and> reset_refs (editor p1) = editor p1 \<and> view (editor p1) = view e"
proof (cases "generatedText (ctx m) = old")
  case True
  with assms show ?thesis by (auto simp: rerender_def)
next
  case False
  with assms(1,3) have p1: "p1 = \<lparr>machine = m,
      editor = e\<lparr>lastInsertedLength := 0, fullAiText := [], parsedJson := None\<rparr>\<rparr>"
    by (auto simp: rerender_def stream_effect_def split: sum.splits)
  from assms(2) have "reset_refs e = e" by simp
  then have "reset_refs (e\<lparr>lastInsertedLength := 0, fullAiText := [], parsedJson := None\<rparr>)
             = e\<lparr>lastInsertedLength := 0, fullAiText := [], parsedJson := None\<rparr>"
    by (cases e) (simp add: reset_refs_def)
  with p1 assms(2) show ?thesis by simp
qed

lemma hw_effect: "stream_effect no_parse hw_editor (Some (js ''XY'')) = Inr (editor hw_pending)"
  by (simp add: hw_editor_def hw_pending_def no_parse_def ai_eval pm_eval str_eval)

lemma hw_step1:
  "deliver no_parse \<lparr>machine = \<lparr>state = Idle, ctx = initial_context\<rparr>, editor = hw_editor\<rparr>
     generate_request
   = Inr \<lparr>machine = \<lparr>state = Streaming, ctx = initial_context\<rparr>, editor = hw_editor\<rparr>"
  by (simp add: generate_request_def ai_eval)

lemma hw_step2:
  "deliver no_parse \<lparr>machine = \<lparr>state = Streaming, ctx = initial_context\<rparr>, editor = hw_editor\<rparr>
     (AI_CHUNK (js ''XY'')) = Inr hw_streaming"
  using hw_effect
  by (simp add: hw_streaming_def deliver_def rerender_def send_def initial_context_def js_def)

lemma hw_step3: "deliver no_parse hw_streaming AI_DONE = Inr hw_pending"
  by (simp add: hw_streaming_def hw_pending_def deliver_def rerender_def send_def
        initial_context_def)

lemma hw_stream_eval:
  "deliver_all no_parse \<lparr>machine = \<lparr>state = Idle, ctx = initial_context\<rparr>, editor = hw_editor\<rparr>
     [generate_request, AI_CHUNK (js ''XY''), AI_DONE] = Inr hw_pending"
  by (simp add: hw_step1 hw_step2 hw_step3)

lemma hw_reject_eval: "click_reject no_parse hw_pending = Inr hw_rejected"
  by (simp add: hw_editor_def hw_pending_def hw_rejected_def no_parse_def
        ai_eval pm_eval str_eval)

section \<open>Claims about streaming and rejecting a suggestion\<close>

text \<open>
  The example of the specification holds on the code: on a paragraph \<open>ab\<close> with the
  cursor between the two letters, the chunks \<open>Hello\<close> and \<open> world\<close> leave the start
  position at 2 and the \<open>em\<close>-marked text \<open>Hello world\<close> there.
\<close>

lemma hello_world_at_fixed_start:
  "deliver_all no_parse ab_page
     [generate_request, AI_CHUNK (js ''Hello''), AI_CHUNK (js '' world'')]
   = Inr \<lparr>machine = \<lparr>state = Streaming,
                        ctx = initial_context\<lparr>generatedText := js ''Hello world''\<rparr>\<rparr>,
          editor = after_world\<rparr>
   \<and> aiTextStartPos after_hello = Some 2
   \<and> aiTextStartPos after_world = Some 2
   \<and> doc (view after_world)
       = Node Doc [] [Node Paragraph []
           [Text (js ''a'') [], Text (js ''Hello world'') [emMark], Text (js ''b'') []]]"
  unfolding hello_world_streamed by (simp add: after_world_def after_hello_def ab_editor_def)

text \<open>
  C2, evaluated on the code. The effect inserts the new part of the display text with its
  carriage returns removed, and then sets \<open>lastInsertedLengthRef\<close> to the length of the
  display text, carriage returns counted. The next chunk goes to
  \<open>aiTextStartPos + lastInsertedLength\<close>, which is then beyond the text inserted so far.
  The document is the paragraph \<open>Hello world\<close> with the cursor after \<open>Hello\<close> (position 6);
  the chunks are \<open>a\<close>, carriage return, \<open>b\<close>, and then \<open>c\<close>. The first chunk inserts the two
  code units \<open>ab\<close> at 6 and sets the counter to 3; the second chunk is inserted at 9, one
  position after the end of the suggestion, behind the space of the user's own text. The
  document does not contain the marked text \<open>abc\<close> at 6.
\<close>

theorem carriage_return_shifts_later_chunks:
  "new_chunk 0 [97, 13, 98] = js ''ab''
   \<and> length (displayText [97, 13, 98]) = 3
   \<and> deliver_all no_parse hw_page
         [generate_request, AI_CHUNK [97, 13, 98], AI_CHUNK (js ''c'')] = Inr cr_streamed
   \<and> aiTextStartPos (editor cr_streamed) = Some 6
   \<and> doc (view (editor cr_streamed))
       = Node Doc [] [Node Paragraph []
           [Text (js ''Hello'') [], Text (js ''ab'') [emMark], Text (js '' '') [],
            Text (js ''c'') [emMark], Text (js ''world'') []]]
   \<and> doc (view (editor cr_streamed))
       \<noteq> Node Doc [] [Node Paragraph []
           [Text (js ''Hello'') [], Text (js ''abc'') [emMark], Text (js '' world'') []]]"
proof -
  have n: "new_chunk 0 [97, 13, 98] = js ''ab'' \<and> length (displayText [97, 13, 98]) = 3"
    by (simp add: str_eval)
  have d: "deliver_all no_parse hw_page
             [generate_request, AI_CHUNK [97, 13, 98], AI_CHUNK (js ''c'')] = Inr cr_streamed"
    by (simp add: hw_page_def cr_streamed_def hw_editor_def generate_request_def no_parse_def
          ai_eval pm_eval str_eval resolve_path.simps)
  have e: "aiTextStartPos (editor cr_streamed) = Some 6
     \<and> doc (view (editor cr_streamed))
       = Node Doc [] [Node Paragraph []
           [Text (js ''Hello'') [], Text (js ''ab'') [emMark], Text (js '' '') [],
            Text (js ''c'') [emMark], Text (js ''world'') []]]"
    by (simp add: cr_streamed_def hw_editor_def)
  have c: "js ''ab'' \<noteq> js ''abc''" by (simp add: js_def)
  from n d e c show ?thesis by simp
qed

text \<open>
  The start position also outlives a session that is stopped. \<open>STOP\<close> takes the machine
  from \<open>streaming\<close> to \<open>idle\<close> and no handler runs in the editor; the next \<open>GENERATE\<close>
  empties \<open>generatedText\<close>, on which the effect resets the counter and keeps
  \<open>aiTextStartPosRef\<close>. The first chunk of the new session is inserted at the start position
  of the stopped one (6, before the text \<open>XY\<close> that the stopped session left), not at the
  selection (8).
\<close>

lemma start_position_outlives_stopped_session:
  "deliver_all no_parse hw_page
     [generate_request, AI_CHUNK (js ''XY''), STOP, generate_request, AI_CHUNK (js ''Z'')]
   = Inr restarted
   \<and> doc (view (editor restarted))
       = Node Doc [] [Node Paragraph []
           [Text (js ''Hello'') [], Text (js ''ZXY'') [emMark], Text (js '' world'') []]]"
proof -
  have "deliver_all no_parse hw_page
     [generate_request, AI_CHUNK (js ''XY''), STOP, generate_request, AI_CHUNK (js ''Z'')]
   = Inr restarted"
    by (simp add: hw_page_def restarted_def hw_editor_def generate_request_def no_parse_def
          ai_eval pm_eval str_eval resolve_path.simps) blast
  then show ?thesis by (simp add: restarted_def hw_editor_def)
qed

text \<open>
  C1, evaluated on the code. The document is the paragraph \<open>Hello world\<close> with the cursor
  after \<open>Hello\<close>; a generation streams \<open>XY\<close> there and ends, so the marked span is
  \<open>[6, 8)\<close>. Rejecting the suggestion deletes from 6 to the end of the document's last
  block: the text \<open> world\<close>, which was never part of the suggestion, is gone too.
\<close>

theorem reject_deletes_to_document_end:
  "deliver_all no_parse \<lparr>machine = \<lparr>state = Idle, ctx = initial_context\<rparr>, editor = hw_editor\<rparr>
     [generate_request, AI_CHUNK (js ''XY''), AI_DONE] = Inr hw_pending
   \<and> aiTextStartPos (editor hw_pending) = Some 6
   \<and> lastInsertedLength (editor hw_pending) = 2
   \<and> click_reject no_parse hw_pending = Inr hw_rejected
   \<and> doc (view (editor hw_rejected)) = Node Doc [] [Node Paragraph [] [Text (js ''Hello'') []]]
   \<and> doc (view (editor hw_rejected))
       \<noteq> Node Doc [] [Node Paragraph [] [Text (js ''Hello world'') []]]"
proof -
  have a: "aiTextStartPos (editor hw_pending) = Some 6 \<and> lastInsertedLength (editor hw_pending) = 2"
    by (simp add: hw_pending_def hw_editor_def)
  have b: "doc (view (editor hw_rejected)) = Node Doc [] [Node Paragraph [] [Text (js ''Hello'') []]]"
    by (simp add: hw_rejected_def hw_editor_def)
  have c: "js ''Hello'' \<noteq> js ''Hello world''" by (simp add: js_def)
  from a b c hw_stream_eval hw_reject_eval show ?thesis by simp
qed

text \<open>
  C10. After a pending suggestion has been rejected the session is idle, and rejecting
  again returns the very same page: no exception, the same machine state and context,
  the same document and the same editor references.
\<close>

theorem second_reject_is_noop:
  assumes "state (machine p) = Pending" and "click_reject parse p = Inr p1"
  shows "state (machine p1) = Idle \<and> click_reject parse p1 = Inr p1"
proof -
  from assms(2) obtain e' where e': "handleReject (editor p) = Inr e'"
    and d: "deliver parse (p\<lparr>editor := e'\<rparr>) REJECT = Inr p1"
    by (auto simp: click_reject_def split: sum.splits)
  have cl: "aiTextStartPos e' = None \<and> reset_refs e' = e'"
    using handleReject_cleared [OF e'] .
  let ?m = "send (machine p) REJECT"
  have m: "state ?m = Idle \<and> generatedText (ctx ?m) = []"
    using send_reject_pending [OF assms(1)] .
  from d have r: "rerender parse (generatedText (ctx (machine p))) ?m e' = Inr p1"
    by (simp add: deliver_def)
  have k: "machine p1 = ?m \<and> aiTextStartPos (editor p1) = None
         \<and> reset_refs (editor p1) = editor p1 \<and> view (editor p1) = view e'"
    using rerender_keeps_cleared [OF r cl] m by simp
  have h2: "handleReject (editor p1) = Inr (editor p1)"
    using handleReject_no_session [of "editor p1"] k by simp
  have s2: "send (machine p1) REJECT = machine p1"
    using send_reject_idle [of "machine p1"] k m by simp
  have "deliver parse p1 REJECT = Inr p1"
    by (simp add: deliver_def s2 rerender_def)
  with h2 have "click_reject parse p1 = Inr p1"
    by (simp add: click_reject_def)
  with k m show ?thesis by simp
qed

theorem second_reject_is_noop_witness:
  "state (machine hw_pending) = Pending
   \<and> click_reject no_parse hw_pending = Inr hw_rejected
   \<and> state (machine hw_rejected) = Idle
   \<and> click_reject no_parse hw_rejected = Inr hw_rejected"
proof -
  have p: "state (machine hw_pending) = Pending" by (simp add: hw_pending_def)
  from second_reject_is_noop [OF p hw_reject_eval] p hw_reject_eval show ?thesis by simp
qed

section \<open>Resolving positions\<close>

declare resolve_path.simps [simp del]

lemma fragSize_simps [simp]:
  "fragSize [] = 0" "fragSize (c # cs) = nodeSize c + fragSize cs"
  "fragSize (xs @ ys) = fragSize xs + fragSize ys"
  by (simp_all add: fragSize_def)

lemma fragSize_take_le: "fragSize (take k cs) \<le> fragSize cs"
proof -
  have "fragSize cs = fragSize (take k cs) + fragSize (drop k cs)"
    by (metis append_take_drop_id fragSize_simps(3))
  then show ?thesis by simp
qed

lemma fragSize_take_Suc:
  "k < length cs \<Longrightarrow> fragSize (take (Suc k) cs) = fragSize (take k cs) + nodeSize (cs ! k)"
  by (simp add: take_Suc_conv_app_nth)

lemma findIndex_from_inside:
  assumes "findIndex_from cs i cur pos = (j, off)" and "cur \<le> pos" and "pos \<le> cur + fragSize cs"
  shows "i \<le> j \<and> j - i \<le> length cs \<and> off = cur + fragSize (take (j - i) cs) \<and> off \<le> pos
         \<and> (off < pos \<longrightarrow> j - i < length cs \<and> pos < off + nodeSize (cs ! (j - i)))"
  using assms
proof (induction cs arbitrary: i cur)
  case Nil
  then show ?case by auto
next
  case (Cons c cs)
  show ?case
  proof (cases "pos \<le> cur + nodeSize c")
    case True
    with Cons.prems show ?thesis by (auto simp: Let_def split: if_splits)
  next
    case False
    with Cons.prems have rec: "findIndex_from cs (i + 1) (cur + nodeSize c) pos = (j, off)"
      by (simp add: Let_def)
    from False Cons.prems have b: "cur + nodeSize c \<le> pos" "pos \<le> (cur + nodeSize c) + fragSize cs"
      by simp_all
    from Cons.IH [OF rec b] have ih:
      "i + 1 \<le> j" "j - (i + 1) \<le> length cs"
      "off = cur + nodeSize c + fragSize (take (j - (i + 1)) cs)" "off \<le> pos"
      "off < pos \<longrightarrow> j - (i + 1) < length cs \<and> pos < off + nodeSize (cs ! (j - (i + 1)))"
      by auto
    from ih(1) have ji: "j - i = Suc (j - (i + 1))" by simp
    from ih show ?thesis unfolding ji by auto
  qed
qed

lemma findIndex_from_det:
  assumes "k < length cs" and "cur + fragSize (take k cs) < pos"
    and "pos < cur + fragSize (take k cs) + nodeSize (cs ! k)"
  shows "findIndex_from cs i cur pos = (i + k, cur + fragSize (take k cs))"
  using assms
proof (induction cs arbitrary: i cur k)
  case Nil
  then show ?case by simp
next
  case (Cons c cs)
  show ?case
  proof (cases k)
    case 0
    with Cons.prems show ?thesis by (simp add: Let_def)
  next
    case (Suc k')
    with Cons.prems have a: "k' < length cs"
      "(cur + nodeSize c) + fragSize (take k' cs) < pos"
      "pos < (cur + nodeSize c) + fragSize (take k' cs) + nodeSize (cs ! k')"
      by (simp_all add: add.assoc)
    from a(2) have "\<not> pos \<le> cur + nodeSize c" by simp
    with Cons.IH [OF a, of "i + 1"] Suc show ?thesis by (simp add: Let_def add.assoc)
  qed
qed

lemma findIndex_inside:
  assumes "findIndex cs pos = Inr (j, off)"
  shows "j \<le> length cs \<and> off = fragSize (take j cs) \<and> off \<le> pos \<and> pos \<le> fragSize cs
         \<and> (off < pos \<longrightarrow> j < length cs \<and> pos < off + nodeSize (cs ! j))"
proof (cases "pos = 0")
  case True
  with assms show ?thesis by (simp add: findIndex_def)
next
  case False
  note nz = this
  show ?thesis
  proof (cases "pos = fragSize cs")
    case True
    with assms nz show ?thesis by (simp add: findIndex_def)
  next
    case False
    with assms nz have le: "pos \<le> fragSize cs" and ff: "findIndex_from cs 0 0 pos = (j, off)"
      by (simp_all add: findIndex_def split: if_splits)
    from findIndex_from_inside [OF ff] le show ?thesis by auto
  qed
qed

lemma findIndex_det:
  assumes "k < length cs" and "fragSize (take k cs) < pos"
    and "pos < fragSize (take k cs) + nodeSize (cs ! k)"
  shows "findIndex cs pos = Inr (k, fragSize (take k cs))"
proof -
  have "fragSize (take (Suc k) cs) \<le> fragSize cs" by (rule fragSize_take_le)
  with assms have lt: "pos < fragSize cs" by (simp add: fragSize_take_Suc)
  from assms have nz: "pos \<noteq> 0" by simp
  from findIndex_from_det [of k cs 0 pos 0] assms
  have "findIndex_from cs 0 0 pos = (k, fragSize (take k cs))" by simp
  with lt nz show ?thesis by (simp add: findIndex_def)
qed

lemma findIndex_zero: "findIndex cs 0 = Inr (0, 0)"
  by (simp add: findIndex_def)

lemma findIndex_end: "cs \<noteq> [] \<Longrightarrow> 0 < fragSize cs \<Longrightarrow> findIndex cs (fragSize cs) = Inr (length cs, fragSize cs)"
  by (simp add: findIndex_def)

lemma resolve_path_stop:
  assumes "findIndex (content n) po = Inr (i, off)" and "po = off"
  shows "resolve_path n s po = Inr ([(n, i, s + off)], po)"
  using assms by (simp add: resolve_path.simps)

lemma resolve_path_text:
  assumes "findIndex (content n) po = Inr (i, off)" and "off < po" and "isText (content n ! i)"
  shows "resolve_path n s po = Inr ([(n, i, s + off)], po)"
proof -
  from findIndex_inside [OF assms(1)] assms(2) have "i < length (content n)" by simp
  with assms show ?thesis by (simp add: resolve_path.simps)
qed

lemma resolve_path_descend:
  assumes "findIndex (content n) po = Inr (i, off)" and "off < po" and "\<not> isText (content n ! i)"
  shows "resolve_path n s po =
           (case resolve_path (content n ! i) (s + off + 1) (po - off - 1) of
              Inl e \<Rightarrow> Inl e
            | Inr (p, po') \<Rightarrow> Inr ((n, i, s + off) # p, po'))"
proof -
  from findIndex_inside [OF assms(1)] assms(2) have "i < length (content n)" by simp
  with assms show ?thesis by (simp add: resolve_path.simps)
qed

lemma nodeSize_not_leaf:
  "\<not> isText c \<Longrightarrow> 1 < nodeSize c \<Longrightarrow> nodeSize c = 2 + fragSize (content c)"
  by (cases c) (auto simp: fragSize_def split: if_splits)

lemma path_ok_nonempty: "path_ok n s path \<Longrightarrow> path \<noteq> []"
  by (cases path) simp_all

lemma path_ok_hd: "path_ok n s path \<Longrightarrow> fst (hd path) = n"
  by (induction n s path rule: path_ok.induct) simp_all

lemma resolve_path_ok:
  assumes "resolve_path n s po = Inr (path, po')"
  shows "path_ok n s path
         \<and> cstart s path (length path - 1) + po' = s + po
         \<and> snd (snd (last path)) \<le> s + po
         \<and> (snd (snd (last path)) < s + po \<longrightarrow>
              fst (snd (last path)) < length (content (fst (last path)))
              \<and> isText (content (fst (last path)) ! fst (snd (last path))))"
  using assms
proof (induction n s po arbitrary: path po' rule: resolve_path.induct)
  case (1 node start parentOffset)
  from "1.prems" obtain i off where fi: "findIndex (content node) parentOffset = Inr (i, off)"
    by (cases "findIndex (content node) parentOffset")
       (auto simp: resolve_path.simps [of node start parentOffset])
  note ins = findIndex_inside [OF fi]
  show ?case
  proof (cases "off < parentOffset")
    case False
    with ins have eq: "parentOffset = off" by simp
    from resolve_path_stop [OF fi eq, of start] "1.prems"
    have "path = [(node, i, start + off)]" "po' = parentOffset" by simp_all
    with ins eq show ?thesis by (simp add: cstart_def)
  next
    case True
    note lt = this
    with ins have il: "i < length (content node)"
      and up: "parentOffset < off + nodeSize (content node ! i)" by simp_all
    show ?thesis
    proof (cases "isText (content node ! i)")
      case True
      from resolve_path_text [OF fi lt True, of start] "1.prems"
      have "path = [(node, i, start + off)]" "po' = parentOffset" by simp_all
      with ins lt il True show ?thesis by (simp add: cstart_def)
    next
      case False
      let ?c = "content node ! i"
      from resolve_path_descend [OF fi lt False, of start] "1.prems"
      obtain p where rec: "resolve_path ?c (start + off + 1) (parentOffset - off - 1) = Inr (p, po')"
        and path: "path = (node, i, start + off) # p"
        by (auto split: sum.splits)
      from lt have nz: "parentOffset - off \<noteq> 0" by simp
      from "1.IH" [OF fi refl nz il False rec] have ih:
        "path_ok ?c (start + off + 1) p"
        "cstart (start + off + 1) p (length p - 1) + po' = start + off + 1 + (parentOffset - off - 1)"
        "snd (snd (last p)) \<le> start + off + 1 + (parentOffset - off - 1)"
        "snd (snd (last p)) < start + off + 1 + (parentOffset - off - 1) \<longrightarrow>
           fst (snd (last p)) < length (content (fst (last p)))
           \<and> isText (content (fst (last p)) ! fst (snd (last p)))"
        by simp_all
      from lt have ar: "start + off + 1 + (parentOffset - off - 1) = start + parentOffset" by simp
      from ih(1) have pne: "p \<noteq> []" by (rule path_ok_nonempty)
      then obtain e rest where p: "p = e # rest" by (cases p) auto
      from lt up have "1 < nodeSize ?c" by simp
      with False have ns: "nodeSize ?c = 2 + fragSize (content ?c)" by (rule nodeSize_not_leaf)
      have ok: "path_ok node start path"
        using ih(1) il ins False ns unfolding path p by simp
      have cs: "cstart start path (length path - 1) = cstart (start + off + 1) p (length p - 1)"
        unfolding path p by (cases rest) (simp_all add: cstart_def)
      have la: "last path = last p" using pne by (simp add: path)
      from ok cs la ih ar show ?thesis by simp
    qed
  qed
qed

lemma cstart_Cons:
  "cstart s ((m, i, off) # e # rest) (Suc k) = cstart (off + 1) (e # rest) k"
  by (cases k) (simp_all add: cstart_def)

lemma path_ok_range:
  assumes "path_ok n s path" and "k < length path"
  shows "s \<le> cstart s path k
         \<and> cstart s path k + fragSize (content (fst (path ! k))) \<le> s + fragSize (content n)"
  using assms
proof (induction n s path arbitrary: k rule: path_ok.induct)
  case (1 n s)
  then show ?case by simp
next
  case (2 n s m i off)
  then show ?case by (simp add: cstart_def)
next
  case (3 n s m i off e rest)
  show ?case
  proof (cases k)
    case 0
    with "3.prems" show ?thesis by (simp add: cstart_def)
  next
    case (Suc k')
    let ?c = "content n ! i"
    from "3.prems" have ok: "path_ok ?c (off + 1) (e # rest)"
      and il: "i < length (content n)" and off: "off = s + fragSize (take i (content n))"
      and ns: "nodeSize ?c = 2 + fragSize (content ?c)" by auto
    from "3.prems" Suc have k': "k' < length (e # rest)" by simp
    from "3.IH" [OF ok k'] have ih:
      "off + 1 \<le> cstart (off + 1) (e # rest) k'"
      "cstart (off + 1) (e # rest) k' + fragSize (content (fst ((e # rest) ! k')))
         \<le> off + 1 + fragSize (content ?c)" by simp_all
    have "fragSize (take (Suc i) (content n)) \<le> fragSize (content n)"
      by (rule fragSize_take_le)
    with il have "fragSize (take i (content n)) + nodeSize ?c \<le> fragSize (content n)"
      by (simp add: fragSize_take_Suc)
    with ih off ns show ?thesis unfolding Suc cstart_Cons by simp
  qed
qed

lemma resolve_path_prefix:
  assumes "path_ok n s path" and "k < length path"
    and "q \<le> fragSize (content (fst (path ! k)))"
  shows "resolve_path n s (cstart s path k - s + q) =
           (case resolve_path (fst (path ! k)) (cstart s path k) q of
              Inl e \<Rightarrow> Inl e
            | Inr (p2, po2) \<Rightarrow> Inr (take k path @ p2, po2))"
  using assms
proof (induction n s path arbitrary: k rule: path_ok.induct)
  case (1 n s)
  then show ?case by simp
next
  case (2 n s m i off)
  then show ?case
    by (cases "resolve_path n s q") (auto simp: cstart_def)
next
  case (3 n s m i off e rest)
  show ?case
  proof (cases k)
    case 0
    with "3.prems" show ?thesis
      by (cases "resolve_path n s q") (auto simp: cstart_def)
  next
    case (Suc k')
    let ?c = "content n ! i"
    let ?cs = "cstart (off + 1) (e # rest) k'"
    let ?nd = "fst ((e # rest) ! k')"
    from "3.prems" have ok: "path_ok ?c (off + 1) (e # rest)"
      and il: "i < length (content n)" and off: "off = s + fragSize (take i (content n))"
      and nt: "\<not> isText ?c"
      and ns: "nodeSize ?c = 2 + fragSize (content ?c)" and mn: "m = n" by auto
    from "3.prems" Suc have k': "k' < length (e # rest)" by simp
    from "3.prems" Suc have q: "q \<le> fragSize (content ?nd)" by simp
    from path_ok_range [OF ok k'] have rg:
      "off + 1 \<le> ?cs" "?cs + fragSize (content ?nd) \<le> off + 1 + fragSize (content ?c)"
      by simp_all
    let ?pp = "?cs - s + q"
    let ?fo = "fragSize (take i (content n))"
    have lo: "?fo < ?pp" using rg(1) off by simp
    have hi: "?pp < ?fo + nodeSize ?c" using rg q off ns by simp
    have fi: "findIndex (content n) ?pp = Inr (i, ?fo)"
      using findIndex_det [OF il lo hi] .
    have a1: "s + ?fo + 1 = off + 1" using off by simp
    have a2: "?pp - ?fo - 1 = ?cs - (off + 1) + q" using rg(1) off by simp
    have step: "resolve_path n s ?pp =
           (case resolve_path ?c (off + 1) (?cs - (off + 1) + q) of
              Inl e \<Rightarrow> Inl e
            | Inr (p, po') \<Rightarrow> Inr ((n, i, s + ?fo) # p, po'))"
      using resolve_path_descend [OF fi lo nt, of s] unfolding a1 a2 .
    have ih: "resolve_path ?c (off + 1) (?cs - (off + 1) + q) =
           (case resolve_path ?nd ?cs q of
              Inl e \<Rightarrow> Inl e
            | Inr (p2, po2) \<Rightarrow> Inr (take k' (e # rest) @ p2, po2))"
      using "3.IH" [OF ok k' q] .
    have cs: "cstart s ((m, i, off) # e # rest) k = ?cs" unfolding Suc by (rule cstart_Cons)
    have nd: "fst (((m, i, off) # e # rest) ! k) = ?nd" unfolding Suc by simp
    show ?thesis
      unfolding cs nd step ih
      by (cases "resolve_path ?nd ?cs q") (auto simp: Suc mn off)
  qed
qed

section \<open>Moving and deleting blocks\<close>


lemma resolve_two_paragraphs_6:
  "resolve two_paragraphs 6
   = Inr \<lparr>rp_pos = 6,
          rp_path = [(two_paragraphs, 1, 4), (Node Paragraph [] [Text (js ''cd'') []], 0, 5)],
          rp_parentOffset = 1\<rparr>"
  by (simp add: two_paragraphs_def resolve_def resolve_path.simps findIndex_def js_def Let_def)




lemma path_ok_entry:
  assumes "path_ok n s path" and "k < length path"
  shows "snd (snd (path ! k))
           = cstart s path k + fragSize (take (fst (snd (path ! k))) (content (fst (path ! k))))
         \<and> fst (snd (path ! k)) \<le> length (content (fst (path ! k)))"
  using assms
proof (induction n s path arbitrary: k rule: path_ok.induct)
  case (1 n s)
  then show ?case by simp
next
  case (2 n s m i off)
  then show ?case by (simp add: cstart_def)
next
  case (3 n s m i off e rest)
  show ?case
  proof (cases k)
    case 0
    with "3.prems" show ?thesis by (simp add: cstart_def)
  next
    case (Suc k')
    from "3.prems" have ok: "path_ok (content n ! i) (off + 1) (e # rest)" by auto
    from "3.prems" Suc have k': "k' < length (e # rest)" by simp
    from "3.IH" [OF ok k'] show ?thesis unfolding Suc cstart_Cons by simp
  qed
qed

lemma resolve_facts:
  assumes "resolve d pos = Inr r"
  shows "path_ok d 0 (rp_path r)" and "rp_pos r = pos" and "pos \<le> fragSize (content d)"
    and "snd (snd (last (rp_path r))) \<le> pos"
    and "snd (snd (last (rp_path r))) < pos \<longrightarrow>
           fst (snd (last (rp_path r))) < length (content (fst (last (rp_path r))))
           \<and> isText (content (fst (last (rp_path r))) ! fst (snd (last (rp_path r))))"
proof -
  from assms have le: "pos \<le> fragSize (content d)"
    by (simp add: resolve_def split: if_splits)
  with assms obtain p po where rp: "resolve_path d 0 pos = Inr (p, po)"
    and r: "r = \<lparr>rp_pos = pos, rp_path = p, rp_parentOffset = po\<rparr>"
    by (auto simp: resolve_def split: sum.splits)
  from resolve_path_ok [OF rp] r le
  show "path_ok d 0 (rp_path r)" and "rp_pos r = pos" and "pos \<le> fragSize (content d)"
    and "snd (snd (last (rp_path r))) \<le> pos"
    and "snd (snd (last (rp_path r))) < pos \<longrightarrow>
           fst (snd (last (rp_path r))) < length (content (fst (last (rp_path r))))
           \<and> isText (content (fst (last (rp_path r))) ! fst (snd (last (rp_path r))))"
    by simp_all
qed

lemma last_entry:
  assumes "path_ok d 0 (rp_path r)"
  shows "parent r = fst (last (rp_path r))"
    and "index_at r (depth r) = fst (snd (last (rp_path r)))"
    and "offset_at r (depth r) = snd (snd (last (rp_path r)))"
    and "depth r < length (rp_path r)"
proof -
  from assms have ne: "rp_path r \<noteq> []" by (rule path_ok_nonempty)
  then have "last (rp_path r) = rp_path r ! (length (rp_path r) - 1)" by (rule last_conv_nth)
  with ne show "parent r = fst (last (rp_path r))"
    and "index_at r (depth r) = fst (snd (last (rp_path r)))"
    and "offset_at r (depth r) = snd (snd (last (rp_path r)))"
    and "depth r < length (rp_path r)"
    by (simp_all add: parent_def node_at_def index_at_def offset_at_def depth_def)
qed

lemma start_at_cstart: "start_at r k = cstart 0 (rp_path r) k"
  by (simp add: start_at_def cstart_def offset_at_def)

lemma resolve_at_content:
  assumes "resolve d pos = Inr r" and "k \<le> depth r"
    and "q \<le> fragSize (content (node_at r k))"
  shows "resolve d (start_at r k + q) =
           (case resolve_path (node_at r k) (start_at r k) q of
              Inl e \<Rightarrow> Inl e
            | Inr (p2, po2) \<Rightarrow>
                Inr \<lparr>rp_pos = start_at r k + q, rp_path = take k (rp_path r) @ p2,
                     rp_parentOffset = po2\<rparr>)"
proof -
  note ok = resolve_facts(1) [OF assms(1)]
  from last_entry(4) [OF ok] assms(2) have k: "k < length (rp_path r)" by simp
  from assms(3) have q: "q \<le> fragSize (content (fst (rp_path r ! k)))"
    by (simp add: node_at_def)
  from path_ok_range [OF ok k] q
  have le: "start_at r k + q \<le> fragSize (content d)"
    by (simp add: start_at_cstart)
  from resolve_path_prefix [OF ok k q]
  have "resolve_path d 0 (start_at r k + q) =
           (case resolve_path (node_at r k) (start_at r k) q of
              Inl e \<Rightarrow> Inl e
            | Inr (p2, po2) \<Rightarrow> Inr (take k (rp_path r) @ p2, po2))"
    by (simp add: start_at_cstart node_at_def)
  with le show ?thesis
    by (cases "resolve_path (node_at r k) (start_at r k) q") (auto simp: resolve_def)
qed






lemma block_range_of_textblock:
  assumes "resolve d pos = Inr r" and "0 < depth r" and "isBlock (type_of (parent r))"
  shows "findParentNode_from (\<lambda>n. isBlock (type_of n)) r (depth r)
           = Inr (Some (offset_at r (depth r - 1), parent r, depth r))"
proof -
  from assms(2) obtain k where k: "depth r = Suc k" by (cases "depth r") auto
  from assms(3) have "isBlock (type_of (node_at r (Suc k)))" by (simp add: parent_def k)
  then show ?thesis by (simp add: k before_at_def parent_def)
qed





lemma path_ok_inner:
  assumes "path_ok n s path" and "Suc k < length path"
  shows "fst (snd (path ! k)) < length (content (fst (path ! k)))
         \<and> fst (path ! Suc k) = content (fst (path ! k)) ! fst (snd (path ! k))
         \<and> \<not> isText (fst (path ! Suc k))
         \<and> nodeSize (fst (path ! Suc k)) = 2 + fragSize (content (fst (path ! Suc k)))"
  using assms
proof (induction n s path arbitrary: k rule: path_ok.induct)
  case (1 n s)
  then show ?case by simp
next
  case (2 n s m i off)
  then show ?case by simp
next
  case (3 n s m i off e rest)
  from "3.prems" have ok: "path_ok (content n ! i) (off + 1) (e # rest)" by auto
  show ?case
  proof (cases k)
    case 0
    from path_ok_hd [OF ok] have "fst e = content n ! i" by simp
    with "3.prems" 0 show ?thesis by auto
  next
    case (Suc k')
    with "3.prems" have "Suc k' < length (e # rest)" by simp
    from "3.IH" [OF ok this] show ?thesis unfolding Suc by auto
  qed
qed

lemma copy_content: "copy n (content n) = n"
  by (cases n) simp_all

lemma rebuild_id:
  assumes "path_ok n s path"
  shows "rebuild path (content (fst (last path))) = n"
  using assms
proof (induction n s path rule: path_ok.induct)
  case (1 n s)
  then show ?case by simp
next
  case (2 n s m i off)
  then show ?case by (simp add: copy_content)
next
  case (3 n s m i off e rest)
  from "3.prems" have ok: "path_ok (content n ! i) (off + 1) (e # rest)" and mn: "m = n" by auto
  from "3.IH" [OF ok] have "rebuild (e # rest) (content (fst (last (e # rest)))) = content n ! i" .
  then show ?case by (cases e) (simp add: mn copy_content)
qed

lemma rebuild_last_irrelevant:
  "rebuild (pre @ [(b, i, off)]) cs = rebuild (pre @ [(b, i', off')]) cs"
proof (induction pre)
  case Nil
  show ?case by simp
next
  case (Cons e pre)
  obtain n j x where e: "e = (n, j, x)" by (cases e) auto
  show ?case
  proof (cases pre)
    case Nil
    with Cons e show ?thesis by simp
  next
    case (Cons e' pre')
    with Cons.IH e show ?thesis by simp
  qed
qed

lemma rebuild_top_content:
  assumes "path_ok n s path" and "1 < length path"
  shows "length (content (rebuild path cs)) = length (content n)"
proof -
  from assms(2) obtain e1 e2 rest where p: "path = e1 # e2 # rest"
    by (cases path; cases "tl path") auto
  obtain m i off where e1: "e1 = (m, i, off)" by (cases e1) auto
  from assms(1) have mn: "m = n" and il: "i < length (content n)" unfolding p e1 by auto
  from il have "content n \<noteq> []" by auto
  then obtain t a ch where n: "n = Node t a ch" by (cases n) auto
  show ?thesis unfolding p e1 by (simp add: mn n)
qed

lemma textblock_accepts_nothing: "isTextblock t \<Longrightarrow> valid_content t []"
  by (cases t) (simp_all add: isTextblock_def)

lemma valid_textblock_empty: "isTextblock t \<Longrightarrow> validContent t []"
  by (simp add: validContent_def textblock_accepts_nothing)

lemma resolve_content_start:
  assumes "resolve d pos = Inr r"
  shows "resolve d (start_at r (depth r))
           = Inr \<lparr>rp_pos = start_at r (depth r),
                  rp_path = take (depth r) (rp_path r) @ [(parent r, 0, start_at r (depth r))],
                  rp_parentOffset = 0\<rparr>"
proof -
  have rp: "resolve_path (parent r) (start_at r (depth r)) 0
              = Inr ([(parent r, 0, start_at r (depth r) + 0)], 0)"
    by (rule resolve_path_stop [OF findIndex_zero refl])
  from resolve_at_content [OF assms, of "depth r" 0] rp show ?thesis
    by (simp add: parent_def)
qed

lemma resolve_content_end:
  assumes "resolve d pos = Inr r" and "0 < fragSize (content (parent r))"
  shows "resolve d (start_at r (depth r) + fragSize (content (parent r)))
           = Inr \<lparr>rp_pos = start_at r (depth r) + fragSize (content (parent r)),
                  rp_path = take (depth r) (rp_path r)
                            @ [(parent r, length (content (parent r)),
                                start_at r (depth r) + fragSize (content (parent r)))],
                  rp_parentOffset = fragSize (content (parent r))\<rparr>"
proof -
  let ?cs = "content (parent r)"
  from assms(2) have fi: "findIndex ?cs (fragSize ?cs) = Inr (length ?cs, fragSize ?cs)"
    by (simp add: findIndex_def)
  have rp: "resolve_path (parent r) (start_at r (depth r)) (fragSize ?cs)
              = Inr ([(parent r, length ?cs, start_at r (depth r) + fragSize ?cs)], fragSize ?cs)"
    by (rule resolve_path_stop [OF fi refl])
  from resolve_at_content [OF assms(1), of "depth r" "fragSize ?cs"] rp show ?thesis
    by (simp add: parent_def)
qed

lemma snoc_accessors:
  "depth \<lparr>rp_pos = p, rp_path = pre @ [(b, i, off)], rp_parentOffset = q\<rparr> = length pre"
  "parent \<lparr>rp_pos = p, rp_path = pre @ [(b, i, off)], rp_parentOffset = q\<rparr> = b"
  "index_at \<lparr>rp_pos = p, rp_path = pre @ [(b, i, off)], rp_parentOffset = q\<rparr> (length pre) = i"
  "offset_at \<lparr>rp_pos = p, rp_path = pre @ [(b, i, off)], rp_parentOffset = q\<rparr> (length pre) = off"
  "textOffset \<lparr>rp_pos = p, rp_path = pre @ [(b, i, off)], rp_parentOffset = q\<rparr> = p - off"
  "start_at \<lparr>rp_pos = p, rp_path = pre @ [(b, i, off)], rp_parentOffset = q\<rparr> (length pre)
     = (if pre = [] then 0 else snd (snd (last pre)) + 1)"
  by (simp_all add: depth_def parent_def node_at_def index_at_def offset_at_def textOffset_def
        start_at_def nth_append last_conv_nth)

lemma path_split:
  assumes "path_ok d 0 (rp_path r)"
  shows "rp_path r = take (depth r) (rp_path r)
                     @ [(parent r, index_at r (depth r), offset_at r (depth r))]"
    and "length (take (depth r) (rp_path r)) = depth r"
proof -
  from assms have ne: "rp_path r \<noteq> []" by (rule path_ok_nonempty)
  note l = last_entry [OF assms]
  from ne have "rp_path r = butlast (rp_path r) @ [last (rp_path r)]" by simp
  moreover have "butlast (rp_path r) = take (depth r) (rp_path r)"
    by (simp add: butlast_conv_take depth_def)
  moreover have "last (rp_path r) = (parent r, index_at r (depth r), offset_at r (depth r))"
    by (simp add: l)
  ultimately show "rp_path r = take (depth r) (rp_path r)
                     @ [(parent r, index_at r (depth r), offset_at r (depth r))]"
    by simp
  from l(4) show "length (take (depth r) (rp_path r)) = depth r" by simp
qed

lemma start_at_prefix:
  assumes "path_ok d 0 (rp_path r)"
  shows "start_at r (depth r)
           = (if take (depth r) (rp_path r) = [] then 0
              else snd (snd (last (take (depth r) (rp_path r)))) + 1)"
proof (cases "depth r = 0")
  case True
  then show ?thesis by (simp add: start_at_def)
next
  case False
  note l = last_entry [OF assms]
  from False l(4) have ne: "take (depth r) (rp_path r) \<noteq> []" by auto
  have "last (take (depth r) (rp_path r))
          = take (depth r) (rp_path r) ! (length (take (depth r) (rp_path r)) - 1)"
    by (rule last_conv_nth [OF ne])
  also from l(4) have "length (take (depth r) (rp_path r)) = depth r" by simp
  also from False have "take (depth r) (rp_path r) ! (depth r - 1) = rp_path r ! (depth r - 1)"
    by simp
  finally have "last (take (depth r) (rp_path r)) = rp_path r ! (depth r - 1)" .
  with False ne show ?thesis by (simp add: start_at_def offset_at_def)
qed

lemma positive_sizes_empty:
  "list_all (\<lambda>c. 0 < nodeSize c) cs \<Longrightarrow> fragSize cs = 0 \<Longrightarrow> cs = []"
  by (cases cs) simp_all

lemma clear_block_content:
  assumes "resolve d pos = Inr r" and "isTextblock (type_of (parent r))"
    and "list_all (\<lambda>c. 0 < nodeSize c) (content (parent r))"
  shows "replace_range d (start_at r (depth r))
           (start_at r (depth r) + fragSize (content (parent r))) []
         = Inr (rebuild (rp_path r) [])"
proof (cases "fragSize (content (parent r)) = 0")
  case True
  note f = resolve_facts [OF assms(1)]
  note l = last_entry [OF f(1)]
  from positive_sizes_empty [OF assms(3) True] have e: "content (parent r) = []" .
  from rebuild_id [OF f(1)] e have "rebuild (rp_path r) [] = d" by (simp add: l)
  with True show ?thesis by (simp add: replace_range_def)
next
  case False
  note f = resolve_facts [OF assms(1)]
  note sp = path_split [OF f(1)]
  let ?pre = "take (depth r) (rp_path r)"
  let ?b = "parent r"
  let ?c = "start_at r (depth r)"
  let ?fs = "fragSize (content ?b)"
  let ?r1 = "\<lparr>rp_pos = ?c, rp_path = ?pre @ [(?b, 0, ?c)], rp_parentOffset = 0\<rparr>"
  let ?r2 = "\<lparr>rp_pos = ?c + ?fs, rp_path = ?pre @ [(?b, length (content ?b), ?c + ?fs)],
              rp_parentOffset = ?fs\<rparr>"
  from False have pos: "0 < ?fs" by simp
  have r1: "resolve d ?c = Inr ?r1" by (rule resolve_content_start [OF assms(1)])
  have r2: "resolve d (?c + ?fs) = Inr ?r2" by (rule resolve_content_end [OF assms(1) pos])
  have d1: "depth ?r1 = depth r" "depth ?r2 = depth r"
    using snoc_accessors(1) [of _ ?pre] sp(2) by simp_all
  have s1: "start_at ?r1 (depth r) = ?c" "start_at ?r2 (depth r) = ?c"
    using snoc_accessors(6) [of _ ?pre] start_at_prefix [OF f(1)] sp(2) by simp_all
  have i1: "index_at ?r1 (depth r) = 0" "index_at ?r2 (depth r) = length (content ?b)"
    using snoc_accessors(3) [of _ ?pre] sp(2) by simp_all
  have p1: "parent ?r1 = ?b" "parent ?r2 = ?b"
    using snoc_accessors(2) [of _ ?pre] by simp_all
  have t1: "textOffset ?r1 = 0" "textOffset ?r2 = 0"
    using snoc_accessors(5) [of _ ?pre] by simp_all
  have cr: "canReplace ?b 0 (length (content ?b)) []"
    using assms(2) by (simp add: canReplace_def textblock_accepts_nothing)
  have tw: "replaceTwoWay ?r1 ?r2 = []"
    by (simp add: replaceTwoWay_def Let_def d1 i1 p1 t1)
  have rb: "rebuild (?pre @ [(?b, 0, ?c)]) [] = rebuild (rp_path r) []"
    using rebuild_last_irrelevant [of ?pre ?b 0 ?c "[]" "index_at r (depth r)" "offset_at r (depth r)"]
      sp(1) by simp
  from pos have ne: "?c \<noteq> ?c + ?fs" by simp
  show ?thesis
    unfolding replace_range_def
    using ne r1 r2 cr tw rb valid_textblock_empty [OF assms(2)]
    by (simp add: Let_def d1 s1 i1 p1)
qed

lemma block_node_facts:
  "in_block_group (type_of c) \<Longrightarrow> 0 < nodeSize c \<and> \<not> isText c \<and> marks_of c = []"
  by (cases c) simp_all

lemma fragSize_take_pos:
  assumes "list_all (\<lambda>c. 0 < nodeSize c) cs" and "0 < i" and "cs \<noteq> []"
  shows "0 < fragSize (take i cs)"
  using assms by (cases cs; cases i) auto

lemma findIndex_from_boundary:
  assumes "list_all (\<lambda>c. 0 < nodeSize c) cs" and "0 < i" and "i \<le> length cs"
  shows "findIndex_from cs k cur (cur + fragSize (take i cs)) = (k + i, cur + fragSize (take i cs))"
  using assms
proof (induction cs arbitrary: k cur i)
  case Nil
  then show ?case by simp
next
  case (Cons c cs)
  from Cons.prems obtain i' where i: "i = Suc i'" by (cases i) auto
  from Cons.prems have il: "i' \<le> length cs" and pc: "0 < nodeSize c"
    and ps: "list_all (\<lambda>c. 0 < nodeSize c) cs" by (simp_all add: i)
  show ?case
  proof (cases "i' = 0")
    case True
    then show ?thesis by (simp add: i Let_def)
  next
    case False
    then have ip: "0 < i'" by simp
    from ip il have "cs \<noteq> []" by auto
    from fragSize_take_pos [OF ps ip this] have "0 < fragSize (take i' cs)" .
    with Cons.IH [OF ps ip il, of "k + 1" "cur + nodeSize c"]
    show ?thesis by (simp add: i Let_def add.assoc)
  qed
qed

lemma findIndex_boundary:
  assumes "list_all (\<lambda>c. 0 < nodeSize c) cs" and "i \<le> length cs"
  shows "findIndex cs (fragSize (take i cs)) = Inr (i, fragSize (take i cs))"
proof (cases "i = 0")
  case True
  then show ?thesis by (simp add: findIndex_def)
next
  case False
  then have ip: "0 < i" by simp
  from findIndex_from_boundary [OF assms(1) ip assms(2), of 0 0]
  have ff: "findIndex_from cs 0 0 (fragSize (take i cs)) = (i, fragSize (take i cs))" by simp
  have le: "fragSize (take i cs) \<le> fragSize cs" by (rule fragSize_take_le)
  show ?thesis
  proof (cases "fragSize (take i cs) = fragSize cs")
    case True
    have "i = length cs"
    proof (rule ccontr)
      assume "i \<noteq> length cs"
      with assms(2) have il: "i < length cs" by simp
      from fragSize_take_le [of "Suc i" cs] il
      have "fragSize (take i cs) + nodeSize (cs ! i) \<le> fragSize cs"
        by (simp add: fragSize_take_Suc)
      moreover from assms(1) il have "0 < nodeSize (cs ! i)" by (simp add: list_all_length)
      ultimately show False using True by simp
    qed
    moreover from ip assms(2) have "cs \<noteq> []" by auto
    from fragSize_take_pos [OF assms(1) ip this] have "0 < fragSize (take i cs)" .
    ultimately show ?thesis using True by (simp add: findIndex_def)
  next
    case False
    from ip assms(2) have "cs \<noteq> []" by auto
    from fragSize_take_pos [OF assms(1) ip this] have "0 < fragSize (take i cs)" .
    with False le ff show ?thesis by (simp add: findIndex_def)
  qed
qed

lemma foldl_addNode_blocks:
  "list_all (\<lambda>c. \<not> isText c) xs \<Longrightarrow> foldl addNode acc xs = acc @ xs"
  by (induction xs arbitrary: acc) (simp_all add: addNode_def)

lemma remove_top_block:
  assumes "resolve d pos = Inr r" and "depth r = 1" and "type_of d = Doc"
    and "list_all (\<lambda>c. in_block_group (type_of c)) (content d)"
    and "1 < length (content d)"
  shows "replace_range d (offset_at r 0) (offset_at r 0 + nodeSize (parent r)) []
         = Inr (copy d (take (index_at r 0) (content d) @ drop (Suc (index_at r 0)) (content d)))"
proof -
  note f = resolve_facts [OF assms(1)]
  note l = last_entry [OF f(1)]
  let ?cs = "content d"
  let ?i = "index_at r 0"
  let ?o = "offset_at r 0"
  let ?b = "parent r"
  from l(4) assms(2) have len: "Suc 0 < length (rp_path r)" by simp
  then have len0: "0 < length (rp_path r)" by (rule Suc_lessD)
  from path_ok_hd [OF f(1)] path_ok_nonempty [OF f(1)] have n0: "fst (rp_path r ! 0) = d"
    by (simp add: hd_conv_nth)
  from path_ok_entry [OF f(1) len0] n0 have o: "?o = fragSize (take ?i ?cs)"
    by (simp add: offset_at_def index_at_def cstart_def)
  from path_ok_inner [OF f(1) len] n0 assms(2)
  have il: "?i < length ?cs" and b: "?b = ?cs ! ?i"
    by (simp_all add: index_at_def parent_def node_at_def)
  from assms(4) have blocks: "\<And>j. j < length ?cs \<Longrightarrow> in_block_group (type_of (?cs ! j))"
    by (simp add: list_all_length)
  have posz: "list_all (\<lambda>c. 0 < nodeSize c) ?cs"
    using assms(4) block_node_facts by (auto simp: list_all_iff)
  have nont: "list_all (\<lambda>c. \<not> isText c) ?cs"
    using assms(4) block_node_facts by (auto simp: list_all_iff)
  have nomarks: "list_all (\<lambda>c. marks_of c = []) ?cs"
    using assms(4) block_node_facts by (auto simp: list_all_iff)
  from il have e: "?o + nodeSize ?b = fragSize (take (Suc ?i) ?cs)"
    by (simp add: o b fragSize_take_Suc)
  from il have il': "?i \<le> length ?cs" "Suc ?i \<le> length ?cs" by simp_all
  have fi1: "findIndex ?cs ?o = Inr (?i, ?o)"
    using findIndex_boundary [OF posz il'(1)] o by simp
  have fi2: "findIndex ?cs (?o + nodeSize ?b) = Inr (Suc ?i, ?o + nodeSize ?b)"
    using findIndex_boundary [OF posz il'(2)] e by simp
  have le1: "?o \<le> fragSize ?cs" using o fragSize_take_le [of ?i ?cs] by simp
  have le2: "?o + nodeSize ?b \<le> fragSize ?cs" using e fragSize_take_le [of "Suc ?i" ?cs] by simp
  let ?r1 = "\<lparr>rp_pos = ?o, rp_path = [(d, ?i, ?o)], rp_parentOffset = ?o\<rparr>"
  let ?r2 = "\<lparr>rp_pos = ?o + nodeSize ?b, rp_path = [(d, Suc ?i, ?o + nodeSize ?b)],
              rp_parentOffset = ?o + nodeSize ?b\<rparr>"
  have r1: "resolve d ?o = Inr ?r1"
    using resolve_path_stop [OF fi1 refl, of 0] le1 by (simp add: resolve_def)
  have r2: "resolve d (?o + nodeSize ?b) = Inr ?r2"
    using resolve_path_stop [OF fi2 refl, of 0] le2 by (simp add: resolve_def)
  from posz il b have pb: "0 < nodeSize ?b" by (simp add: list_all_length)
  then have ne: "?o \<noteq> ?o + nodeSize ?b" by simp
  let ?cs' = "take ?i ?cs @ drop (Suc ?i) ?cs"
  from assms(5) il have cne: "?cs' \<noteq> []" by (cases "?i") auto
  have sub: "set ?cs' \<subseteq> set ?cs"
    using set_take_subset [of ?i ?cs] set_drop_subset [of "Suc ?i" ?cs] by auto
  have vc: "valid_content Doc (map type_of ?cs')"
    using assms(4) cne sub by (auto simp: list_all_iff)
  have cr: "canReplace d ?i (Suc ?i) []"
    using vc by (simp add: canReplace_def assms(3))
  have nt': "list_all (\<lambda>c. \<not> isText c) ?cs'" using nont sub by (auto simp: list_all_iff)
  have nm': "list_all (\<lambda>c. allowsMarks Doc (marks_of c)) ?cs'"
    using nomarks sub by (auto simp: list_all_iff)
  have tw: "replaceTwoWay ?r1 ?r2 = ?cs'"
    using foldl_addNode_blocks [OF nt', of "[]"]
    by (simp add: replaceTwoWay_def Let_def depth_def parent_def node_at_def index_at_def
          offset_at_def textOffset_def)
  have va: "validContent Doc ?cs'" using vc nm' by (simp add: validContent_def)
  have d1: "depth ?r1 = 0" "depth ?r2 = 0" by (simp_all add: depth_def)
  have p1: "parent ?r1 = d" by (simp add: parent_def node_at_def depth_def)
  have i1: "index_at ?r1 0 = ?i" "index_at ?r2 0 = Suc ?i" by (simp_all add: index_at_def)
  show ?thesis
    unfolding replace_range_def
    using ne r1 r2 cr tw va
    by (simp add: Let_def d1 p1 i1 start_at_def assms(3))
qed

lemma delete_and_dispatch:
  assumes "\<not> active (slashMenu st)" and "replace_range (doc st) a b [] = Inr d'"
  shows "(case tr_delete (new_tr st) a b of
            Inl e \<Rightarrow> Inl e
          | Inr tr \<Rightarrow> (case dispatch st tr of Inl e \<Rightarrow> Inl e | Inr st' \<Rightarrow> Inr (True, st')))
         = Inr (True, \<lparr>doc = d',
                       selection = tr_selection st
                         (if a = b then new_tr st
                          else (new_tr st)\<lparr>tr_doc := d', tr_steps := [(a, b - a, 0)]\<rparr>),
                       slashMenu = slashMenu st\<rparr>)"
proof (cases "a = b")
  case True
  with assms(2) have "d' = doc st" by (simp add: replace_range_def)
  with True assms(1) show ?thesis
    by (simp add: tr_delete_def tr_replace_def new_tr_def dispatch_def slash_apply_def
          tr_selection_def)
next
  case False
  with assms show ?thesis
    by (simp add: tr_delete_def tr_replace_def new_tr_def dispatch_def slash_apply_def)
qed

text \<open>
  What \<open>deleteBlock\<close> does where this development can follow it: when the document has
  exactly one top-level child, the content of the textblock holding the cursor is cleared
  and every node is kept, at whatever depth that textblock lies; otherwise a top-level
  textblock holding the cursor is removed. In both cases the command succeeds and the
  new document has at least one top-level block.
\<close>

lemma delete_block_clears_or_removes:
  assumes "selection st = TextSelection anchor head"
    and "resolve (doc st) (min anchor head) = Inr r"
    and "0 < depth r"
    and "isTextblock (type_of (parent r))"
    and "list_all (\<lambda>c. 0 < nodeSize c) (content (parent r))"
    and "type_of (doc st) = Doc"
    and "list_all (\<lambda>c. in_block_group (type_of c)) (content (doc st))"
    and "\<not> active (slashMenu st)"
    and "length (content (doc st)) = 1 \<or> depth r = 1"
  shows "case deleteBlock st of
           Inl e \<Rightarrow> False
         | Inr (ok, st') \<Rightarrow>
             ok \<and> content (doc st') \<noteq> []
             \<and> (if length (content (doc st)) = 1
                then doc st' = rebuild (rp_path r) []
                else doc st' = copy (doc st)
                       (take (index_at r 0) (content (doc st))
                        @ drop (Suc (index_at r 0)) (content (doc st))))"
proof -
  let ?d = "doc st"
  let ?start = "offset_at r (depth r - 1)"
  let ?b = "parent r"
  note f = resolve_facts [OF assms(2)]
  note l = last_entry [OF f(1)]
  from assms(4) have blk: "isBlock (type_of ?b)" by (simp add: isTextblock_def)
  have gb: "getBlockRange ?d (selection st)
              = Inr (Some (?start, ?start + nodeSize ?b, ?b))"
    using block_range_of_textblock [OF assms(2,3) blk]
    by (simp add: getBlockRange_def findParentNode_def assms(1,2))
  from assms(3) l(4) have len: "Suc (depth r - 1) < length (rp_path r)" by simp
  from assms(3) have sd: "Suc (depth r - 1) = depth r" by simp
  from path_ok_inner [OF f(1) len]
  have "nodeSize (fst (rp_path r ! Suc (depth r - 1)))
          = 2 + fragSize (content (fst (rp_path r ! Suc (depth r - 1))))" by blast
  then have ns: "nodeSize ?b = 2 + fragSize (content ?b)"
    unfolding sd by (simp add: parent_def node_at_def)
  from assms(3) have s1: "?start + 1 = start_at r (depth r)" by (simp add: start_at_def)
  from ns s1 have e1: "?start + nodeSize ?b - 1 = start_at r (depth r) + fragSize (content ?b)"
    by simp
  from len have pl: "1 < length (rp_path r)" by simp
  from path_ok_hd [OF f(1)] path_ok_nonempty [OF f(1)] pl have "content ?d \<noteq> []"
    using path_ok_inner [OF f(1), of 0] by (auto simp: hd_conv_nth)
  then obtain a ch where dn: "?d = Node Doc a ch"
    using assms(6) by (cases ?d) auto
  show ?thesis
  proof (cases "length (content ?d) = 1")
    case True
    have rr: "replace_range ?d (?start + 1) (?start + nodeSize ?b - 1) []
                = Inr (rebuild (rp_path r) [])"
      unfolding s1 e1 by (rule clear_block_content [OF assms(2,4,5)])
    from rebuild_top_content [OF f(1) pl, of "[]"] True
    have ne: "content (rebuild (rp_path r) []) \<noteq> []" by auto
    from delete_and_dispatch [OF assms(8) rr] True gb ne show ?thesis
      by (simp add: deleteBlock_def)
  next
    case False
    with assms(9) have d1: "depth r = 1" by simp
    from False \<open>content ?d \<noteq> []\<close> have two: "1 < length (content ?d)"
      by (cases "content ?d") auto
    have rr: "replace_range ?d (offset_at r 0) (offset_at r 0 + nodeSize ?b) []
         = Inr (copy ?d (take (index_at r 0) (content ?d) @ drop (Suc (index_at r 0)) (content ?d)))"
      by (rule remove_top_block [OF assms(2) d1 assms(6,7) two])
    from path_ok_inner [OF f(1), of 0] pl path_ok_hd [OF f(1)] path_ok_nonempty [OF f(1)]
    have il: "index_at r 0 < length (content ?d)"
      by (simp add: index_at_def hd_conv_nth)
    with two have ne: "take (index_at r 0) (content ?d) @ drop (Suc (index_at r 0)) (content ?d) \<noteq> []"
      by (cases "index_at r 0") auto
    from delete_and_dispatch [OF assms(8) rr] False gb ne d1 show ?thesis
      by (simp add: deleteBlock_def dn)
  qed
qed

lemma delete_block_removes_second_paragraph:
  "case deleteBlock in_second_paragraph of
     Inl e \<Rightarrow> False
   | Inr (ok, st') \<Rightarrow>
       ok \<and> content (doc st') \<noteq> []
       \<and> doc st' = Node Doc [] [Node Paragraph [] [Text (js ''ab'') []]]"
proof -
  let ?r = "\<lparr>rp_pos = 6,
             rp_path = [(two_paragraphs, 1, 4), (Node Paragraph [] [Text (js ''cd'') []], 0, 5)],
             rp_parentOffset = 1\<rparr>"
  have "case deleteBlock in_second_paragraph of
          Inl e \<Rightarrow> False
        | Inr (ok, st') \<Rightarrow>
            ok \<and> content (doc st') \<noteq> []
            \<and> (if length (content (doc in_second_paragraph)) = 1
                then doc st' = rebuild (rp_path ?r) []
                else doc st' = copy (doc in_second_paragraph)
                       (take (index_at ?r 0) (content (doc in_second_paragraph))
                        @ drop (Suc (index_at ?r 0)) (content (doc in_second_paragraph))))"
  proof (rule delete_block_clears_or_removes [of in_second_paragraph 6 6 ?r])
    show "resolve (doc in_second_paragraph) (min 6 6) = Inr ?r"
      by (simp add: in_second_paragraph_def resolve_two_paragraphs_6)
  qed (simp_all add: in_second_paragraph_def depth_def parent_def node_at_def isTextblock_def
         isBlock_def slash_init_def two_paragraphs_def js_def)
  then show ?thesis
    by (simp add: in_second_paragraph_def two_paragraphs_def index_at_def
          split: sum.splits prod.splits)
qed

text \<open>
  Claim C9. Deleting the block containing the selection removes it, except when it is
  the document's only block, which is cleared and kept. \<open>deleteBlock\<close> says so itself
  (\<open>Don't delete if it's the only block\<close>, \<open>Just clear the content instead\<close>) and tests
  \<open>state.doc.childCount === 1\<close>, which is true as well when the one top-level child is a
  container holding several blocks. In a document made of one blockquote holding the
  paragraphs \<open>a\<close> and \<open>b\<close>, with the cursor in the first paragraph, the block containing
  the selection is not the document's only block, and yet \<open>deleteBlock\<close> clears it and
  keeps it: the document still holds two paragraphs, the first one empty.
\<close>

theorem delete_block_in_sole_container:
  "deleteBlock in_quoted_paragraph
   = Inr (True, \<lparr>doc = Node Doc [] [Node Blockquote []
                          [Node Paragraph [] [], Node Paragraph [] [Text (js ''b'') []]]],
                 selection = TextSelection 2 2, slashMenu = slash_init\<rparr>)"
  by (simp add: in_quoted_paragraph_def quoted_def deleteBlock_def getBlockRange_def
        findParentNode_def pm_eval resolve_path.simps isBlock_def before_at_def)

section \<open>Typing: the slash key and the task-list pattern\<close>





















lemma resolve_child_boundary:
  assumes "list_all (\<lambda>c. 0 < nodeSize c) (content d)" and "i \<le> length (content d)"
  shows "resolve d (fragSize (take i (content d)))
         = Inr \<lparr>rp_pos = fragSize (take i (content d)),
                rp_path = [(d, i, fragSize (take i (content d)))],
                rp_parentOffset = fragSize (take i (content d))\<rparr>"
  using resolve_path_stop [OF findIndex_boundary [OF assms] refl, of 0]
    fragSize_take_le [of i "content d"]
  by (simp add: resolve_def)

lemma cut_nodes_before:
  "to \<le> pos \<Longrightarrow> cut_nodes cs pos from to = []"
  by (cases cs) simp_all







section \<open>Typing inside nested blocks\<close>


lemma copy_copy: "copy (copy n xs) ys = copy n ys"
  by (cases n) simp_all

lemma content_copy_update: "(content (copy n (cs[i := a])))[i := b] = (content (copy n cs))[i := b]"
  by (cases n) simp_all




lemma plug_path_length [simp]: "length (plug_path pre x) = length pre"
  by (induction pre x rule: plug_path.induct) simp_all





lemma content_start_snoc [simp]: "content_start (pre @ [(n, i, off)]) = off + 1"
  by (simp add: content_start_def)












lemma fragSize_text_content [simp]: "fragSize (text_content s) = length s"
  by (simp add: text_content_def)

















section \<open>Claims about converting a structured payload\<close>





















end
